theory Spec2Isabelle
  imports Main "HOL-Library.Log_Nat"
begin

section \<open>The ledger store (src/modules/db.ts)\<close>

text \<open>
  The store is an SQLite database with three tables.  A table is modelled as the list of
  its rows in rowid order, an AUTOINCREMENT key by the counter SQLite keeps for it.
  Numbers reach the store as JavaScript numbers; the model takes the integer-valued ones.
  A column that is only stored, compared and read back is modelled as the integer it was
  given, which is what the store holds for every safe integer (of magnitude at most
  \<open>2^53 - 1\<close>).  The two fee counters are added to inside the store; their addition
  is the double-precision addition that SQLite performs on a bound number, modelled
  below.  A record id reaches the store as the decimal string that
  \<open>createInvoice\<close> returned; the model passes the number itself.  The clock
  (\<open>now()\<close> of utils) is a parameter of every operation that reads it.
\<close>

subsection \<open>Rows and tables\<close>

record rec_row =
  rid :: nat
  pubkey :: string
  is_outgoing :: int
  is_paid :: int
  payment_hash :: string
  description :: string
  description_hash :: string
  preimage :: string
  amount :: "int option"
  fees_paid :: int
  created_at :: int
  expires_at :: int
  settled_at :: int

record wallet_row =
  w_id :: nat
  w_pubkey :: string
  w_balance :: int
  w_channel_size :: int
  w_fee_credit :: int

record fees_row =
  mining_fee_paid :: int
  mining_fee_received :: int

text \<open>The fees table only ever holds the row with id 1, so it is an optional row.\<close>

record db =
  records_tbl :: "rec_row list"
  records_seq :: nat
  wallets_tbl :: "wallet_row list"
  wallets_seq :: nat
  fees_tbl :: "fees_row option"

definition empty_db :: db where
  "empty_db = \<lparr>records_tbl = [], records_seq = 0, wallets_tbl = [], wallets_seq = 0,
     fees_tbl = None\<rparr>"

text \<open>The rowid an AUTOINCREMENT table gives to an inserted row: one more than the
  largest rowid the table has ever held.\<close>

definition next_rowid :: "nat \<Rightarrow> nat list \<Rightarrow> nat" where
  "next_rowid seq ids = Suc (foldr max ids seq)"

text \<open>The row that \<open>INSERT INTO records\<close> builds from the column defaults.\<close>

definition default_rec :: "nat \<Rightarrow> rec_row" where
  "default_rec i = \<lparr>rid = i, pubkey = [], is_outgoing = 0, is_paid = 0, payment_hash = [],
     description = [], description_hash = [], preimage = [], amount = None, fees_paid = 0,
     created_at = 0, expires_at = 0, settled_at = 0\<rparr>"

subsection \<open>Values crossing the interface (types.ts)\<close>

text \<open>The declarations of types.ts are not among the sources.  The fields below are those
  the store reads and writes: \<open>updateWalletState\<close> for the wallet state, \<open>recToTx\<close>
  and \<open>getInvoiceById\<close> for a transaction and an invoice, \<open>getFees\<close> for the fee
  totals.\<close>

record WalletState =
  balance :: int
  channelSize :: int
  feeCredit :: int

datatype tx_type = incoming | outgoing

record Transaction =
  tx_type :: tx_type
  tx_description :: "string option"
  tx_description_hash :: "string option"
  tx_preimage :: "string option"
  tx_payment_hash :: string
  tx_amount :: int
  tx_fees_paid :: int
  tx_created_at :: int
  tx_expires_at :: int
  tx_settled_at :: int

record Invoice = Transaction +
  invoice :: string

record Fees =
  miningFeePaid :: int
  miningFeeReceived :: int

datatype error =
    FailedMiningFeePaid
  | FailedMiningFeeReceived
  | InvoiceNotFound
  | InvalidType
  | InvalidClientPubkey
  | WalletNotFound
  | PaymentNotFound
  | SqliteError
  | DatatypeMismatch
  | OutOfRange

text \<open>JavaScript's \<open>s || ""\<close> on an optional string, and \<open>s || undefined\<close> on a
  column.\<close>

definition or_empty :: "string option \<Rightarrow> string" where
  "or_empty s = (case s of None \<Rightarrow> [] | Some t \<Rightarrow> t)"

definition or_undefined :: "string \<Rightarrow> string option" where
  "or_undefined s = (if s = [] then None else Some s)"

subsection \<open>Numbers in the store\<close>

text \<open>
  \<open>node:sqlite\<close> binds a JavaScript number as a double.  An INTEGER column keeps an
  integer-valued double of magnitude below \<open>2^63\<close> as an integer and a larger one as a
  real.  Adding a bound number to a column is an addition of doubles: the exact sum,
  rounded to the nearest double, a tie to the one with the even significand.

  A double holds 53 significant bits.  \<open>ulp_exp x\<close> is the number of low bits of \<open>x\<close>
  that it cannot hold, \<open>is_double x\<close> says that those bits of \<open>x\<close> are zero, and
  \<open>to_double x\<close> is the double nearest to \<open>x\<close>.  The range of the exponent is not
  modelled: no number of the store comes near \<open>2^1024\<close>.  An argument is a double
  already; \<open>to_double\<close> leaves it as it is.
\<close>

definition MAX_SAFE_INTEGER :: int where
  "MAX_SAFE_INTEGER = 2 ^ 53 - 1"

definition ulp_exp :: "int \<Rightarrow> nat" where
  "ulp_exp x = nat (bitlen \<bar>x\<bar> - 53)"

definition is_double :: "int \<Rightarrow> bool" where
  "is_double x = (2 ^ ulp_exp x dvd x)"

definition to_double :: "int \<Rightarrow> int" where
  "to_double x =
     (let u = 2 ^ ulp_exp x; q = \<bar>x\<bar> div u; r = \<bar>x\<bar> mod u
      in sgn x * ((if u < 2 * r \<or> (2 * r = u \<and> odd q) then q + 1 else q) * u))"

text \<open>The sum of a column and a bound number.\<close>

definition real_add :: "int \<Rightarrow> int \<Rightarrow> int" where
  "real_add a b = to_double (to_double a + to_double b)"

text \<open>Reading a numeric column into a JavaScript number: an INTEGER beyond the safe range
  raises \<open>ERR_OUT_OF_RANGE\<close>, a real is returned as it is.\<close>

definition column_number :: "int \<Rightarrow> error + int" where
  "column_number v =
     (if \<bar>v\<bar> \<le> MAX_SAFE_INTEGER then Inr v
      else if \<bar>v\<bar> < 2 ^ 63 then Inl OutOfRange
      else Inr v)"

subsection \<open>Fee counters\<close>

text \<open>The upsert of \<open>addMiningFeePaid\<close>; the second component is \<open>changes\<close>.\<close>

definition fees_paid_run :: "int \<Rightarrow> db \<Rightarrow> db \<times> nat" where
  "fees_paid_run fee d =
     (case fees_tbl d of
        None \<Rightarrow>
          (d\<lparr>fees_tbl := Some \<lparr>mining_fee_paid = to_double fee, mining_fee_received = 0\<rparr>\<rparr>, 1)
      | Some f \<Rightarrow>
          (d\<lparr>fees_tbl := Some (f\<lparr>mining_fee_paid := real_add (mining_fee_paid f) fee\<rparr>)\<rparr>, 1))"

definition addMiningFeePaid :: "int \<Rightarrow> db \<Rightarrow> (error + unit) \<times> db" where
  "addMiningFeePaid fee d =
     (let (d1, changes) = fees_paid_run fee d
      in if changes = 0 then (Inl FailedMiningFeePaid, d1) else (Inr (), d1))"

text \<open>The upsert of the received counter inside \<open>settleInvoice\<close>.\<close>

definition fees_received_run :: "int \<Rightarrow> db \<Rightarrow> db \<times> nat" where
  "fees_received_run fee d =
     (case fees_tbl d of
        None \<Rightarrow>
          (d\<lparr>fees_tbl := Some \<lparr>mining_fee_paid = 0, mining_fee_received = to_double fee\<rparr>\<rparr>, 1)
      | Some f \<Rightarrow>
          (d\<lparr>fees_tbl :=
               Some (f\<lparr>mining_fee_received := real_add (mining_fee_received f) fee\<rparr>)\<rparr>, 1))"

text \<open>\<open>getFees\<close> reads the row with id 1; a column it cannot read makes it raise.\<close>

definition getFees :: "db \<Rightarrow> error + Fees" where
  "getFees d =
     (case fees_tbl d of
        None \<Rightarrow> Inr \<lparr>miningFeePaid = 0, miningFeeReceived = 0\<rparr>
      | Some r \<Rightarrow>
          (case column_number (mining_fee_paid r) of
             Inl e \<Rightarrow> Inl e
           | Inr p \<Rightarrow>
               (case column_number (mining_fee_received r) of
                  Inl e \<Rightarrow> Inl e
                | Inr q \<Rightarrow> Inr \<lparr>miningFeePaid = p, miningFeeReceived = q\<rparr>)))"

text \<open>The two counters as the store holds them, 0 while the row is absent.\<close>

definition paid_counter :: "db \<Rightarrow> int" where
  "paid_counter d = (case fees_tbl d of None \<Rightarrow> 0 | Some r \<Rightarrow> mining_fee_paid r)"

definition received_counter :: "db \<Rightarrow> int" where
  "received_counter d = (case fees_tbl d of None \<Rightarrow> 0 | Some r \<Rightarrow> mining_fee_received r)"

subsection \<open>Wallets\<close>

definition listWallets :: "db \<Rightarrow> (string \<times> WalletState) list" where
  "listWallets d =
     map (\<lambda>r. (w_pubkey r,
                \<lparr>balance = w_balance r, channelSize = w_channel_size r,
                 feeCredit = w_fee_credit r\<rparr>))
       (wallets_tbl d)"

text \<open>The wallet upsert, keyed by the unique pubkey index.  The insert draws a rowid from
  the table's counter before the conflict is seen, so the counter advances on an update
  as well.\<close>

definition wallet_run :: "string \<Rightarrow> WalletState \<Rightarrow> db \<Rightarrow> db \<times> nat" where
  "wallet_run clientPubkey walletState d =
     (let i = next_rowid (wallets_seq d) (map w_id (wallets_tbl d))
      in if list_ex (\<lambda>w. w_pubkey w = clientPubkey) (wallets_tbl d)
         then (d\<lparr>wallets_tbl :=
                    map (\<lambda>w. if w_pubkey w = clientPubkey
                              then w\<lparr>w_balance := balance walletState,
                                     w_channel_size := channelSize walletState,
                                     w_fee_credit := feeCredit walletState\<rparr>
                              else w)
                      (wallets_tbl d),
                  wallets_seq := i\<rparr>,
               length (filter (\<lambda>w. w_pubkey w = clientPubkey) (wallets_tbl d)))
         else (d\<lparr>wallets_tbl := wallets_tbl d @
                      [\<lparr>w_id = i, w_pubkey = clientPubkey, w_balance = balance walletState,
                        w_channel_size = channelSize walletState,
                        w_fee_credit = feeCredit walletState\<rparr>],
                  wallets_seq := i\<rparr>, 1))"

text \<open>\<open>updateWalletState\<close>.  The flag \<open>raises\<close> says that SQLite raised while
  running the statement (a constraint violation, an I/O error); a statement that raises
  changes nothing.\<close>

definition updateWalletState ::
  "bool \<Rightarrow> string \<Rightarrow> WalletState \<Rightarrow> db \<Rightarrow> (error + unit) \<times> db" where
  "updateWalletState raises clientPubkey walletState d =
     (if raises then (Inl SqliteError, d)
      else (let (d1, changes) = wallet_run clientPubkey walletState d
            in if changes \<noteq> 1 then (Inl WalletNotFound, d1) else (Inr (), d1)))"

subsection \<open>Invoices (incoming records)\<close>

definition createInvoice :: "string \<Rightarrow> int \<Rightarrow> db \<Rightarrow> nat \<times> db" where
  "createInvoice clientPubkey now d =
     (let i = next_rowid (records_seq d) (map rid (records_tbl d))
      in (i, d\<lparr>records_tbl := records_tbl d @
                   [(default_rec i)\<lparr>pubkey := clientPubkey, created_at := now\<rparr>],
               records_seq := i\<rparr>))"

definition deleteInvoice :: "nat \<Rightarrow> db \<Rightarrow> db" where
  "deleteInvoice i d =
     d\<lparr>records_tbl := filter (\<lambda>r. \<not> (rid r = i \<and> is_outgoing r = 0)) (records_tbl d)\<rparr>"

definition complete_row :: "Invoice \<Rightarrow> rec_row \<Rightarrow> rec_row" where
  "complete_row iv r =
     r\<lparr>payment_hash := tx_payment_hash iv,
       description := or_empty (tx_description iv),
       description_hash := or_empty (tx_description_hash iv),
       amount := Some (tx_amount iv),
       created_at := tx_created_at iv,
       expires_at := tx_expires_at iv\<rparr>"

definition completeInvoice :: "nat \<Rightarrow> Invoice \<Rightarrow> db \<Rightarrow> (error + unit) \<times> db" where
  "completeInvoice i iv d =
     (let d1 = d\<lparr>records_tbl :=
                   map (\<lambda>r. if rid r = i then complete_row iv r else r) (records_tbl d)\<rparr>;
          changes = length (filter (\<lambda>r. rid r = i) (records_tbl d))
      in if changes \<noteq> 1 then (Inl InvoiceNotFound, d1) else (Inr (), d1))"

definition recToTx :: "rec_row \<Rightarrow> Transaction" where
  "recToTx r =
     \<lparr>tx_type = (if is_outgoing r \<noteq> 0 then outgoing else incoming),
      tx_description = or_undefined (description r),
      tx_description_hash = or_undefined (description_hash r),
      tx_preimage = or_undefined (preimage r),
      tx_payment_hash = payment_hash r,
      tx_amount = (case amount r of None \<Rightarrow> 0 | Some a \<Rightarrow> a),
      tx_fees_paid = fees_paid r,
      tx_created_at = created_at r,
      tx_expires_at = expires_at r,
      tx_settled_at = settled_at r\<rparr>"

definition getInvoiceById :: "nat \<Rightarrow> db \<Rightarrow> error + (Invoice \<times> string) option" where
  "getInvoiceById i d =
     (case find (\<lambda>r. rid r = i \<and> is_outgoing r = 0) (records_tbl d) of
        None \<Rightarrow> Inr None
      | Some r \<Rightarrow>
          (let tx = recToTx r
           in if tx_type tx = outgoing then Inl InvalidType
              else Inr (Some (Transaction.extend (tx\<lparr>tx_type := incoming\<rparr>)
                                (Invoice.fields []),
                              pubkey r))))"

subsection \<open>Transactions\<close>

text \<open>\<open>BEGIN TRANSACTION\<close> keeps the contents of the database at that moment;
  \<open>ROLLBACK\<close> restores them and \<open>COMMIT\<close> keeps the current ones.\<close>

definition ROLLBACK_TRANSACTION :: "db \<Rightarrow> db \<Rightarrow> db" where
  "ROLLBACK_TRANSACTION at_begin current = at_begin"

definition COMMIT_TRANSACTION :: "db \<Rightarrow> db \<Rightarrow> db" where
  "COMMIT_TRANSACTION at_begin current = current"

text \<open>The conditional update of \<open>settleInvoice\<close>.\<close>

definition settle_invoice_run :: "int \<Rightarrow> nat \<Rightarrow> db \<Rightarrow> db \<times> nat" where
  "settle_invoice_run settledAt i d =
     (d\<lparr>records_tbl :=
          map (\<lambda>r. if rid r = i \<and> is_paid r = 0
                    then r\<lparr>is_paid := 1, settled_at := settledAt\<rparr> else r)
            (records_tbl d)\<rparr>,
      length (filter (\<lambda>r. rid r = i \<and> is_paid r = 0) (records_tbl d)))"

definition settleInvoice ::
  "bool \<Rightarrow> string \<Rightarrow> nat \<Rightarrow> int \<Rightarrow> WalletState \<Rightarrow> int \<Rightarrow> db \<Rightarrow> (error + bool) \<times> db" where
  "settleInvoice wallet_raises clientPubkey i settledAt walletState miningFee d =
     (case getInvoiceById i d of
        Inl e \<Rightarrow> (Inl e, ROLLBACK_TRANSACTION d d)
      | Inr found \<Rightarrow>
          if map_option snd found \<noteq> Some clientPubkey
          then (Inl InvalidClientPubkey, ROLLBACK_TRANSACTION d d)
          else (let (d1, changes) = settle_invoice_run settledAt i d
                in if changes = 0 then (Inr False, ROLLBACK_TRANSACTION d d1)
                   else (let (d2, fchanges) = fees_received_run miningFee d1
                         in if fchanges = 0
                            then (Inl FailedMiningFeeReceived, ROLLBACK_TRANSACTION d d2)
                            else (case updateWalletState wallet_raises clientPubkey
                                         walletState d2 of
                                    (Inl e, d3) \<Rightarrow> (Inl e, ROLLBACK_TRANSACTION d d3)
                                  | (Inr u, d3) \<Rightarrow> (Inr True, COMMIT_TRANSACTION d d3)))))"

subsection \<open>Payments (outgoing records)\<close>

definition createPayment :: "string \<Rightarrow> Invoice \<Rightarrow> int \<Rightarrow> db \<Rightarrow> db" where
  "createPayment clientPubkey iv now d =
     (let i = next_rowid (records_seq d) (map rid (records_tbl d))
      in d\<lparr>records_tbl := records_tbl d @
              [(default_rec i)\<lparr>is_outgoing := 1, pubkey := clientPubkey,
                 payment_hash := tx_payment_hash iv,
                 description := or_empty (tx_description iv),
                 description_hash := or_empty (tx_description_hash iv),
                 amount := Some (tx_amount iv), created_at := now\<rparr>],
            records_seq := i\<rparr>)"

definition deletePayment :: "string \<Rightarrow> string \<Rightarrow> db \<Rightarrow> db" where
  "deletePayment clientPubkey paymentHash d =
     d\<lparr>records_tbl :=
         filter (\<lambda>r. \<not> (pubkey r = clientPubkey \<and> payment_hash r = paymentHash))
           (records_tbl d)\<rparr>"

definition payment_match :: "string \<Rightarrow> string \<Rightarrow> rec_row \<Rightarrow> bool" where
  "payment_match clientPubkey paymentHash r =
     (pubkey r = clientPubkey \<and> payment_hash r = paymentHash \<and> is_paid r = 0)"

definition settle_payment_run :: "int \<Rightarrow> int \<Rightarrow> string \<Rightarrow> string \<Rightarrow> db \<Rightarrow> db \<times> nat" where
  "settle_payment_run feesPaid now clientPubkey paymentHash d =
     (d\<lparr>records_tbl :=
          map (\<lambda>r. if payment_match clientPubkey paymentHash r
                    then r\<lparr>is_paid := 1, fees_paid := feesPaid, settled_at := now\<rparr> else r)
            (records_tbl d)\<rparr>,
      length (filter (payment_match clientPubkey paymentHash) (records_tbl d)))"

definition settlePayment ::
  "bool \<Rightarrow> string \<Rightarrow> string \<Rightarrow> int \<Rightarrow> WalletState \<Rightarrow> int \<Rightarrow> db \<Rightarrow> (error + unit) \<times> db" where
  "settlePayment wallet_raises clientPubkey paymentHash feesPaid walletState now d =
     (let (d1, changes) = settle_payment_run feesPaid now clientPubkey paymentHash d
      in if changes \<noteq> 1 then (Inl PaymentNotFound, ROLLBACK_TRANSACTION d d1)
         else (case updateWalletState wallet_raises clientPubkey walletState d1 of
                 (Inl e, d2) \<Rightarrow> (Inl e, ROLLBACK_TRANSACTION d d2)
               | (Inr u, d2) \<Rightarrow> (Inr (), COMMIT_TRANSACTION d d2)))"

subsection \<open>The watermark\<close>


subsection \<open>Listing transactions\<close>

text \<open>Modelled from the spec: the declaration of \<open>ListTransactionsReq\<close> (types.ts) is
  not among the sources.  The client key, the window, \<open>unpaid\<close> and the type are the
  fields \<open>listTransactions\<close> reads; limit and offset are the spec's "pagination via
  limit/offset".  An absent field is \<open>None\<close>.\<close>

record ListTransactionsReq =
  req_clientPubkey :: string
  req_from :: "int option"
  req_until :: "int option"
  req_limit :: "int option"
  req_offset :: "int option"
  req_unpaid :: "bool option"
  req_type :: "tx_type option"

text \<open>A value bound to a placeholder of a prepared statement.  \<open>select.all(...args)\<close>
  binds the arguments to the placeholders in order; a placeholder past the last argument
  stays unbound and reads as NULL.\<close>

datatype sql_value = Null | Integer int | Text string

definition bound :: "sql_value list \<Rightarrow> nat \<Rightarrow> sql_value" where
  "bound args n = (if n < length args then args ! n else Null)"

text \<open>SQL comparisons: one with NULL is never true.  The statement compares a column
  only with a value of the column's own type.\<close>

fun sql_eq :: "sql_value \<Rightarrow> sql_value \<Rightarrow> bool" where
  "sql_eq (Integer a) (Integer b) = (a = b)"
| "sql_eq (Text a) (Text b) = (a = b)"
| "sql_eq x y = False"

fun sql_le :: "sql_value \<Rightarrow> sql_value \<Rightarrow> bool" where
  "sql_le (Integer a) (Integer b) = (a \<le> b)"
| "sql_le x y = False"

text \<open>\<open>LIMIT l OFFSET off\<close>: a negative limit is no limit, a negative offset is 0.\<close>

definition sql_limit :: "int \<Rightarrow> int \<Rightarrow> 'a list \<Rightarrow> 'a list" where
  "sql_limit l off rows =
     (if l < 0 then drop (nat off) rows else take (nat l) (drop (nat off) rows))"

text \<open>JavaScript's \<open>n || dflt\<close> on an optional number.\<close>

definition or_number :: "int option \<Rightarrow> int \<Rightarrow> int" where
  "or_number n dflt = (case n of None \<Rightarrow> dflt | Some v \<Rightarrow> if v = 0 then dflt else v)"

text \<open>The arguments that \<open>listTransactions\<close> collects, in order.\<close>

definition list_args :: "ListTransactionsReq \<Rightarrow> int \<Rightarrow> sql_value list" where
  "list_args req now =
     [Text (req_clientPubkey req), Integer (or_number (req_from req) 0),
      Integer (or_number (req_until req) now)]
     @ (if req_unpaid req \<noteq> Some True then [Integer 1] else [])
     @ (if req_type req \<noteq> None
        then [Integer (if req_type req = Some outgoing then 1 else 0)] else [])"

text \<open>The WHERE clause the function assembles: three fixed conditions, then one on
  \<open>is_paid\<close> unless \<open>unpaid\<close> is true, then one on \<open>is_outgoing\<close> when a type is
  given; each takes the next placeholder.\<close>

definition list_where :: "ListTransactionsReq \<Rightarrow> sql_value list \<Rightarrow> rec_row \<Rightarrow> bool" where
  "list_where req args r =
     (sql_eq (Text (pubkey r)) (bound args 0)
      \<and> sql_le (bound args 1) (Integer (created_at r))
      \<and> sql_le (Integer (created_at r)) (bound args 2)
      \<and> (if req_unpaid req \<noteq> Some True
          then sql_eq (Integer (is_paid r)) (bound args 3) else True)
      \<and> (if req_type req \<noteq> None
          then sql_eq (Integer (is_outgoing r))
                 (bound args (if req_unpaid req \<noteq> Some True then 4 else 3))
          else True))"

text \<open>\<open>listTransactions\<close>.  The two placeholders of \<open>LIMIT ? OFFSET ?\<close> follow those
  of the WHERE clause.  SQLite raises a datatype mismatch when the value of LIMIT or
  OFFSET is not an integer.  Rows with equal \<open>created_at\<close> are kept in rowid order.\<close>

definition listTransactions ::
  "ListTransactionsReq \<Rightarrow> int \<Rightarrow> db \<Rightarrow> error + Transaction list" where
  "listTransactions req now d =
     (let args = list_args req now;
          n = 3 + (if req_unpaid req \<noteq> Some True then 1 else 0)
                + (if req_type req \<noteq> None then 1 else 0);
          rows = sort_key (\<lambda>r. - created_at r) (filter (list_where req args) (records_tbl d))
      in case (bound args n, bound args (Suc n)) of
           (Integer l, Integer off) \<Rightarrow> Inr (map recToTx (sql_limit l off rows))
         | other \<Rightarrow> Inl DatatypeMismatch)"

subsection \<open>Reading one record\<close>

text \<open>\<open>SELECT * FROM records WHERE id = ?\<close>, used to state what an operation did to a
  record.\<close>

definition lookup_rec :: "nat \<Rightarrow> db \<Rightarrow> rec_row option" where
  "lookup_rec i d = find (\<lambda>r. rid r = i) (records_tbl d)"

definition lookup_wallet :: "string \<Rightarrow> db \<Rightarrow> WalletState option" where
  "lookup_wallet k d = map_of (listWallets d) k"

subsection \<open>Sequences of calls\<close>

text \<open>The mutating operations of the store as values, the database a call leaves behind
  (whether it returns or raises), and the database after a sequence of calls.\<close>

datatype store_op =
    AddMiningFeePaid int
  | CreateInvoice string int
  | DeleteInvoice nat
  | CompleteInvoice nat Invoice
  | SettleInvoice bool string nat int WalletState int
  | CreatePayment string Invoice int
  | DeletePayment string string
  | SettlePayment bool string string int WalletState int

fun db_after :: "store_op \<Rightarrow> db \<Rightarrow> db" where
  "db_after (AddMiningFeePaid fee) d = snd (addMiningFeePaid fee d)"
| "db_after (CreateInvoice k now) d = snd (createInvoice k now d)"
| "db_after (DeleteInvoice i) d = deleteInvoice i d"
| "db_after (CompleteInvoice i iv) d = snd (completeInvoice i iv d)"
| "db_after (SettleInvoice raises k i t ws fee) d = snd (settleInvoice raises k i t ws fee d)"
| "db_after (CreatePayment k iv now) d = createPayment k iv now d"
| "db_after (DeletePayment k h) d = deletePayment k h d"
| "db_after (SettlePayment raises k h fp ws now) d = snd (settlePayment raises k h fp ws now d)"

definition run_ops :: "store_op list \<Rightarrow> db \<Rightarrow> db" where
  "run_ops ops d = foldl (\<lambda>s op. db_after op s) d ops"

text \<open>What a call adds to the paid counter, and whether its fee argument is
  non-negative.\<close>

fun fee_paid_arg :: "store_op \<Rightarrow> int" where
  "fee_paid_arg (AddMiningFeePaid fee) = fee"
| "fee_paid_arg other = 0"

fun fee_arg_nonneg :: "store_op \<Rightarrow> bool" where
  "fee_arg_nonneg (AddMiningFeePaid fee) = (0 \<le> fee)"
| "fee_arg_nonneg (SettleInvoice raises k i t ws fee) = (0 \<le> fee)"
| "fee_arg_nonneg other = True"

text \<open>The keys of the schema: record ids are unique (the primary key) and so are the
  keys of the wallets (the unique index).\<close>

definition store_wf :: "db \<Rightarrow> bool" where
  "store_wf d = (distinct (map rid (records_tbl d)) \<and> distinct (map w_pubkey (wallets_tbl d)))"

text \<open>Both counters are doubles, as every sum the store computes is.\<close>

definition fees_wf :: "db \<Rightarrow> bool" where
  "fees_wf d = (is_double (paid_counter d) \<and> is_double (received_counter d))"

section \<open>The node adapter's queue of incoming payments\<close>

text \<open>
  The class \<open>Phoenixd\<close> runs on the JavaScript event loop: a piece of code runs to its next
  \<open>await\<close> without interruption, and continues in a later turn, when the awaited promise
  has settled.  The model has one step per turn.  Its state holds the queue, the
  invocations of \<open>processIncomingPayments\<close> that are suspended at an \<open>await\<close> (each
  with its local \<open>p\<close> and the callback it waits for), and a trace of what has happened.
  The callbacks \<open>onLiquidityFee\<close> and \<open>onIncomingPayment\<close> return promises; whether one
  is fulfilled or rejected is an input of the step that resumes the invocation.
\<close>

record IncomingPayment =
  externalId :: "string option"
  completedAt :: int
  receivedSat :: int
  fees :: int
  paymentHash :: string

text \<open>The argument of \<open>onIncomingPayment\<close>.\<close>

record PaymentEvent =
  ev_paymentHash :: string
  ev_settledAt :: int
  ev_externalId :: "string option"

text \<open>\<open>Math.round(p.completedAt / 1000)\<close> rounds to the nearest integer, a half
  upwards.\<close>

definition to_event :: "IncomingPayment \<Rightarrow> PaymentEvent" where
  "to_event p =
     \<lparr>ev_paymentHash = paymentHash p,
      ev_settledAt = (completedAt p + 500) div 1000,
      ev_externalId = externalId p\<rparr>"

datatype callback = OnLiquidityFee | OnIncomingPayment

datatype event =
    Begin IncomingPayment
  | CallLiquidityFee IncomingPayment int
  | CallIncomingPayment IncomingPayment PaymentEvent
  | Settled IncomingPayment bool
  | End IncomingPayment

record phoenixd =
  incomingPaymentQueue :: "IncomingPayment list"
  suspended :: "(IncomingPayment \<times> callback) list"
  trace :: "event list"

definition init_phoenixd :: phoenixd where
  "init_phoenixd = \<lparr>incomingPaymentQueue = [], suspended = [], trace = []\<rparr>"

text \<open>\<open>processIncomingPayments\<close> from its start to its first \<open>await\<close>.  On an empty
  queue \<open>p\<close> is undefined, reading \<open>p.fees\<close> raises inside the \<open>try\<close>, and the rest
  of the function changes nothing.\<close>

definition processIncomingPayments :: "phoenixd \<Rightarrow> phoenixd" where
  "processIncomingPayments s =
     (case incomingPaymentQueue s of
        [] \<Rightarrow> s
      | p # rest \<Rightarrow>
          if fees p \<noteq> 0
          then s\<lparr>suspended := suspended s @ [(p, OnLiquidityFee)],
                 trace := trace s @ [Begin p, CallLiquidityFee p (fees p)]\<rparr>
          else s\<lparr>suspended := suspended s @ [(p, OnIncomingPayment)],
                 trace := trace s @ [Begin p, CallIncomingPayment p (to_event p)]\<rparr>)"

text \<open>The end of \<open>processIncomingPayments\<close>, after the \<open>try\<close>: drop the head of the
  queue and start on the next entry if there is one.\<close>

definition after_try :: "IncomingPayment \<Rightarrow> phoenixd \<Rightarrow> phoenixd" where
  "after_try p s =
     (let s1 = s\<lparr>incomingPaymentQueue := tl (incomingPaymentQueue s),
                  trace := trace s @ [End p]\<rparr>
      in if length (incomingPaymentQueue s1) > 0 then processIncomingPayments s1 else s1)"

text \<open>The \<open>n\<close>-th suspended invocation continues: its awaited promise was fulfilled
  (\<open>ok\<close>) or rejected.  After a fulfilled \<open>onLiquidityFee\<close> it calls
  \<open>onIncomingPayment\<close> and waits again; otherwise it leaves the \<open>try\<close>.\<close>

definition resume :: "nat \<Rightarrow> bool \<Rightarrow> phoenixd \<Rightarrow> phoenixd" where
  "resume n ok s =
     (if n < length (suspended s)
      then (case suspended s ! n of
              (p, cb) \<Rightarrow>
                if cb = OnLiquidityFee \<and> ok
                then s\<lparr>suspended := (suspended s)[n := (p, OnIncomingPayment)],
                       trace := trace s @ [Settled p True,
                                           CallIncomingPayment p (to_event p)]\<rparr>
                else after_try p
                       (s\<lparr>suspended := take n (suspended s) @ drop (Suc n) (suspended s),
                          trace := trace s @ [Settled p ok]\<rparr>))
      else s)"

definition scheduleIncomingPayment :: "IncomingPayment \<Rightarrow> phoenixd \<Rightarrow> phoenixd" where
  "scheduleIncomingPayment p s =
     (let s1 = s\<lparr>incomingPaymentQueue := incomingPaymentQueue s @ [p]\<rparr>
      in if length (incomingPaymentQueue s1) = 1 then processIncomingPayments s1 else s1)"

text \<open>\<open>syncPaymentsSince\<close> from the moment the node's list has arrived.\<close>

definition syncPaymentsSince :: "IncomingPayment list \<Rightarrow> phoenixd \<Rightarrow> phoenixd" where
  "syncPaymentsSince payments s =
     foldl (\<lambda>s1 p. scheduleIncomingPayment p s1) s (rev payments)"

text \<open>The turns of the event loop that touch the queue: a notification's payment has been
  looked up and is scheduled, a backfill list has arrived, a suspended invocation
  continues.\<close>

datatype turn =
    Notified IncomingPayment
  | Synced "IncomingPayment list"
  | Resumed nat bool

fun step :: "turn \<Rightarrow> phoenixd \<Rightarrow> phoenixd" where
  "step (Notified p) s = scheduleIncomingPayment p s"
| "step (Synced ps) s = syncPaymentsSince ps s"
| "step (Resumed n ok) s = resume n ok s"

definition run :: "turn list \<Rightarrow> phoenixd \<Rightarrow> phoenixd" where
  "run turns s = foldl (\<lambda>s1 t. step t s1) s turns"

text \<open>The payments a turn enqueues, in order, and those of a list of turns.\<close>

fun enqueued_by :: "turn \<Rightarrow> IncomingPayment list" where
  "enqueued_by (Notified p) = [p]"
| "enqueued_by (Synced ps) = rev ps"
| "enqueued_by (Resumed n ok) = []"

definition enqueued :: "turn list \<Rightarrow> IncomingPayment list" where
  "enqueued turns = concat (map enqueued_by turns)"

subsection \<open>Reading the trace\<close>

text \<open>The payments whose processing has begun, those whose processing has ended, and the
  arguments of the calls of \<open>onIncomingPayment\<close>, each in the order of the trace.\<close>

fun begun :: "event list \<Rightarrow> IncomingPayment list" where
  "begun [] = []"
| "begun (Begin p # es) = p # begun es"
| "begun (e # es) = begun es"

fun ended :: "event list \<Rightarrow> IncomingPayment list" where
  "ended [] = []"
| "ended (End p # es) = p # ended es"
| "ended (e # es) = ended es"

fun received :: "event list \<Rightarrow> PaymentEvent list" where
  "received [] = []"
| "received (CallIncomingPayment p ev # es) = ev # received es"
| "received (e # es) = received es"

text \<open>
  How far the processing of a payment has come, as a reader of the trace sees it: no
  payment is in progress; processing of \<open>p\<close> has begun and no callback has been called;
  a callback for \<open>p\<close> has been called and its promise is pending; the promise of a
  callback for \<open>p\<close> has settled, fulfilled or rejected.
\<close>

datatype progress =
    Idle
  | Begun IncomingPayment
  | Calling IncomingPayment callback
  | Returned IncomingPayment callback bool

text \<open>
  The order of events that the claim of one-at-a-time processing allows.  Processing of a
  payment begins only while none is in progress.  Then \<open>onLiquidityFee\<close> is called with
  the payment's fees if they are not zero, and \<open>onIncomingPayment\<close> with the payment's
  event otherwise.  A promise settles only while it is pending, and nothing but its
  settling may follow a call.  After a fulfilled \<open>onLiquidityFee\<close> comes the call of
  \<open>onIncomingPayment\<close>; after a rejected \<open>onLiquidityFee\<close>, or after
  \<open>onIncomingPayment\<close> has settled, comes the end of the payment.  Every event names the
  payment in progress.  Any other event is refused.
\<close>

fun serial_step :: "progress \<Rightarrow> event \<Rightarrow> progress option" where
  "serial_step Idle (Begin p) = Some (Begun p)"
| "serial_step (Begun q) (CallLiquidityFee p a) =
     (if p = q \<and> fees q \<noteq> 0 \<and> a = fees q then Some (Calling q OnLiquidityFee) else None)"
| "serial_step (Begun q) (CallIncomingPayment p ev) =
     (if p = q \<and> fees q = 0 \<and> ev = to_event q then Some (Calling q OnIncomingPayment)
      else None)"
| "serial_step (Calling q cb) (Settled p ok) =
     (if p = q then Some (Returned q cb ok) else None)"
| "serial_step (Returned q cb ok) (CallIncomingPayment p ev) =
     (if p = q \<and> cb = OnLiquidityFee \<and> ok \<and> ev = to_event q
      then Some (Calling q OnIncomingPayment) else None)"
| "serial_step (Returned q cb ok) (End p) =
     (if p = q \<and> \<not> (cb = OnLiquidityFee \<and> ok) then Some Idle else None)"
| "serial_step st e = None"

text \<open>\<open>serial_run\<close> reads a trace from a given progress and returns the progress at its
  end, or \<open>None\<close> when an event is refused.  A trace is serial when it can be read from
  \<open>Idle\<close>.\<close>

fun serial_run :: "progress \<Rightarrow> event list \<Rightarrow> progress option" where
  "serial_run st [] = Some st"
| "serial_run st (e # es) =
     (case serial_step st e of None \<Rightarrow> None | Some st1 \<Rightarrow> serial_run st1 es)"

definition serial :: "event list \<Rightarrow> bool" where
  "serial es = (serial_run Idle es \<noteq> None)"

text \<open>The turns in which every callback of the given queued payments is fulfilled.\<close>

definition drain_turns :: "IncomingPayment list \<Rightarrow> turn list" where
  "drain_turns ps =
     concat (map (\<lambda>p. if fees p \<noteq> 0 then [Resumed 0 True, Resumed 0 True]
                       else [Resumed 0 True]) ps)"

text \<open>The trace of a payment whose callbacks are all fulfilled.\<close>

definition full_block :: "IncomingPayment \<Rightarrow> event list" where
  "full_block p =
     Begin p
     # (if fees p \<noteq> 0 then [CallLiquidityFee p (fees p), Settled p True] else [])
     @ [CallIncomingPayment p (to_event p), Settled p True, End p]"

text \<open>The turns that finish the work in hand: those that fulfil the callbacks still to come
  for the payment in progress, then those for the payments queued behind it.\<close>

definition finish_turns :: "phoenixd \<Rightarrow> turn list" where
  "finish_turns s =
     (case suspended s of
        [] \<Rightarrow> []
      | (p, cb) # rest \<Rightarrow>
          (if cb = OnLiquidityFee then [Resumed 0 True, Resumed 0 True] else [Resumed 0 True])
          @ drain_turns (tl (incomingPaymentQueue s)))"

subsection \<open>The invariant of the queue\<close>

text \<open>\<open>stage\<close> is the progress that the suspended invocations stand for.
  \<open>queue_inv enq\<close> holds between turns when \<open>enq\<close> lists the payments enqueued so far:
  those ended, followed by the queue, are \<open>enq\<close>; those begun are those ended and the one
  in progress; the suspended invocations are at most one, for the head of the queue; the
  trace is serial and ends in the stage of the state.  \<open>idle_inv\<close> is the same with no
  invocation suspended, as it holds inside a turn just before
  \<open>processIncomingPayments\<close> starts.\<close>

definition stage :: "phoenixd \<Rightarrow> progress" where
  "stage s = (case suspended s of [] \<Rightarrow> Idle | (p, cb) # rest \<Rightarrow> Calling p cb)"

definition idle_inv :: "IncomingPayment list \<Rightarrow> phoenixd \<Rightarrow> bool" where
  "idle_inv enq s =
     (suspended s = []
      \<and> ended (trace s) @ incomingPaymentQueue s = enq
      \<and> begun (trace s) = ended (trace s)
      \<and> serial_run Idle (trace s) = Some Idle)"

definition queue_inv :: "IncomingPayment list \<Rightarrow> phoenixd \<Rightarrow> bool" where
  "queue_inv enq s =
     (ended (trace s) @ incomingPaymentQueue s = enq
      \<and> begun (trace s) = ended (trace s) @ map fst (suspended s)
      \<and> map fst (suspended s) = take 1 (incomingPaymentQueue s)
      \<and> serial_run Idle (trace s) = Some (stage s))"

section \<open>Example states\<close>

definition ws0 :: WalletState where
  "ws0 = \<lparr>balance = 1000, channelSize = 0, feeCredit = 0\<rparr>"

definition ws1 :: WalletState where
  "ws1 = \<lparr>balance = 5000, channelSize = 7, feeCredit = 3\<rparr>"

definition iv0 :: Invoice where
  "iv0 = \<lparr>tx_type = incoming, tx_description = Some ''tea'', tx_description_hash = None,
     tx_preimage = None, tx_payment_hash = ''h1'', tx_amount = 21000, tx_fees_paid = 0,
     tx_created_at = 60, tx_expires_at = 180, tx_settled_at = 0, invoice = ''lnbc1''\<rparr>"

text \<open>One invoice of alice, created at time 50.\<close>

definition ex_created :: db where
  "ex_created = snd (createInvoice ''alice'' 50 empty_db)"

text \<open>The same invoice, settled at time 100.\<close>

definition ex_settled :: db where
  "ex_settled = snd (settleInvoice False ''alice'' 1 100 ws0 0 ex_created)"

text \<open>Then a payment of alice, created at 150 and settled at 200.\<close>

definition ex_unpaid_out :: db where
  "ex_unpaid_out = createPayment ''alice'' iv0 150 ex_settled"


text \<open>A run that interleaves both fee updates with other calls; the second settlement
  is a duplicate.\<close>

definition ex_ops :: "store_op list" where
  "ex_ops = [CreateInvoice ''alice'' 50, AddMiningFeePaid 3,
             SettleInvoice False ''alice'' 1 100 ws0 5, AddMiningFeePaid 4,
             SettleInvoice False ''alice'' 1 100 ws0 5]"


text \<open>Two invoices of alice, both settled, and a request for the first page of one
  paid incoming transaction.\<close>

definition ex_two_paid :: db where
  "ex_two_paid =
     snd (settleInvoice False ''alice'' 2 110 ws1 0
       (snd (createInvoice ''alice'' 60 ex_settled)))"

definition ex_req :: ListTransactionsReq where
  "ex_req = \<lparr>req_clientPubkey = ''alice'', req_from = None, req_until = Some 300,
     req_limit = Some 1, req_offset = Some 0, req_unpaid = Some False,
     req_type = Some incoming\<rparr>"

text \<open>Three payments reported by the node, completed at 10, 20 and 30 seconds, and a run
  in which two of them arrive while the first is in progress.\<close>

definition n1 :: IncomingPayment where
  "n1 = \<lparr>externalId = Some ''1'', completedAt = 10000, receivedSat = 21, fees = 7,
          paymentHash = ''h1''\<rparr>"

definition n2 :: IncomingPayment where
  "n2 = \<lparr>externalId = Some ''2'', completedAt = 20000, receivedSat = 22, fees = 0,
          paymentHash = ''h2''\<rparr>"

definition n3 :: IncomingPayment where
  "n3 = \<lparr>externalId = None, completedAt = 30000, receivedSat = 23, fees = 0,
          paymentHash = ''h3''\<rparr>"

definition ex_turns :: "turn list" where
  "ex_turns = [Notified n1, Notified n2, Resumed 0 True, Notified n3, Resumed 0 True,
               Resumed 0 False, Resumed 0 True]"

section \<open>Properties of the ledger store\<close>

subsection \<open>Double-precision addition\<close>

lemma ulp_exp_small: "\<bar>x\<bar> < 2 ^ 53 \<Longrightarrow> ulp_exp x = 0"
  using bitlen_le_iff_power[of "\<bar>x\<bar>" 53] by (simp add: ulp_exp_def)

lemma to_double_small: "\<bar>x\<bar> < 2 ^ 53 \<Longrightarrow> to_double x = x"
  by (simp add: to_double_def ulp_exp_small Let_def mult_sgn_abs)

lemma to_double_minus: "to_double (- x) = - to_double x"
  by (simp add: to_double_def ulp_exp_def Let_def)

lemma is_double_minus: "is_double (- x) = is_double x"
  by (simp add: is_double_def ulp_exp_def)

lemma to_double_fixed: "is_double x \<Longrightarrow> to_double x = x"
proof -
  assume "is_double x"
  then have d: "2 ^ ulp_exp x dvd \<bar>x\<bar>" by (simp add: is_double_def)
  then have "\<bar>x\<bar> mod 2 ^ ulp_exp x = 0" by simp
  moreover have "\<bar>x\<bar> div 2 ^ ulp_exp x * 2 ^ ulp_exp x = \<bar>x\<bar>" using d by simp
  ultimately show ?thesis by (simp add: to_double_def Let_def mult_sgn_abs)
qed

lemma floor_multiple:
  fixes u :: int
  assumes "0 < u" and "u dvd g" and "g \<le> y"
  shows "g \<le> y div u * u"
proof -
  have "g div u \<le> y div u" using assms(1,3) by (simp add: zdiv_mono1)
  then have "g div u * u \<le> y div u * u" using assms(1) by (simp add: mult_right_mono)
  then show ?thesis using assms(2) by simp
qed

lemma ceil_multiple:
  fixes u :: int
  assumes "0 < u" and "u dvd g" and "y \<le> g" and "y mod u \<noteq> 0"
  shows "(y div u + 1) * u \<le> g"
proof -
  obtain k where k: "g = k * u" using assms(2) by (auto simp: dvd_def mult.commute)
  have "y \<noteq> g" using assms(2,4) by auto
  with assms(3) have "y < g" by simp
  moreover have "y div u * u \<le> y"
  proof -
    have "y div u * u + y mod u = y" by simp
    moreover have "0 \<le> y mod u" using assms(1) by simp
    ultimately show ?thesis by linarith
  qed
  ultimately have "y div u * u < k * u" using k by simp
  then have "y div u < k" using assms(1) by (simp add: mult_less_cancel_right)
  then have "(y div u + 1) * u \<le> k * u" using assms(1) by (simp add: mult_right_mono)
  then show ?thesis using k by simp
qed

lemma bitlen_mono: "0 < g \<Longrightarrow> g \<le> y \<Longrightarrow> bitlen g \<le> bitlen y"
  using bitlen_le_iff_power[of g "bitlen y"] bitlen_bounds[of y] bitlen_nonneg[of y]
  by auto

text \<open>The double nearest to a non-negative integer lies between the multiples of the unit
  around it.\<close>

lemma to_double_nonneg_bounds:
  assumes "0 \<le> y"
  shows "y div 2 ^ ulp_exp y * 2 ^ ulp_exp y \<le> to_double y"
    and "to_double y \<le> (if y mod 2 ^ ulp_exp y = 0 then y
                           else (y div 2 ^ ulp_exp y + 1) * 2 ^ ulp_exp y)"
proof -
  let ?u = "(2::int) ^ ulp_exp y"
  have u: "0 < ?u" by simp
  have z: "y = 0 \<Longrightarrow> ulp_exp y = 0" by (simp add: ulp_exp_def)
  have td: "to_double y =
      (if ?u < 2 * (y mod ?u) \<or> (2 * (y mod ?u) = ?u \<and> odd (y div ?u))
       then y div ?u + 1 else y div ?u) * ?u"
  proof (cases "y = 0")
    case True
    then show ?thesis by (simp add: to_double_def z)
  next
    case False
    with assms have "0 < y" by simp
    then show ?thesis by (simp add: to_double_def Let_def)
  qed
  show "y div ?u * ?u \<le> to_double y"
    unfolding td using u by (simp add: mult_right_mono)
  show "to_double y \<le> (if y mod ?u = 0 then y else (y div ?u + 1) * ?u)"
  proof (cases "y mod ?u = 0")
    case True
    then have "y div ?u * ?u = y" by (simp add: dvd_eq_mod_eq_0 mod_0_imp_dvd)
    with True show ?thesis unfolding td by simp
  next
    case False
    then show ?thesis unfolding td using u by (simp add: mult_right_mono)
  qed
qed

lemma bitlen_power2: "bitlen (2 ^ w) = int w + 1"
  using bitlen_twopow_add_eq[where w = w and b = 0] by simp

lemma is_double_power2: "is_double (2 ^ n)"
  by (auto simp: is_double_def ulp_exp_def bitlen_power2 intro!: le_imp_power_dvd)

lemma pow2_dvd_pow2: "m \<le> n \<Longrightarrow> (2::int) ^ m dvd 2 ^ n"
  by (simp add: le_imp_power_dvd)

lemma to_double_ge_nonneg:
  assumes "is_double g" and "0 \<le> g" and "g \<le> y"
  shows "g \<le> to_double y"
proof (cases "g = 0")
  case True
  have "0 \<le> y div 2 ^ ulp_exp y * 2 ^ ulp_exp y" using assms by (simp add: pos_imp_zdiv_nonneg_iff)
  with True to_double_nonneg_bounds(1)[of y] assms show ?thesis by simp
next
  case False
  with assms have g: "0 < g" and y: "0 < y" by simp_all
  let ?u = "(2::int) ^ ulp_exp y"
  have bl: "bitlen g \<le> bitlen y" using g assms(3) by (rule bitlen_mono)
  have "g \<le> y div ?u * ?u"
  proof (cases "bitlen g = bitlen y")
    case True
    then have "ulp_exp g = ulp_exp y" using g y by (simp add: ulp_exp_def)
    with assms(1) have "?u dvd g" by (simp add: is_double_def)
    then show ?thesis using assms(3) by (intro floor_multiple) simp_all
  next
    case False
    with bl have lt: "bitlen g < bitlen y" by simp
    let ?P = "(2::int) ^ nat (bitlen y - 1)"
    have "g < 2 ^ nat (bitlen g)" using bitlen_bounds[OF g] by simp
    also have "\<dots> \<le> ?P" using lt by (intro power_increasing) simp_all
    finally have gP: "g < ?P" .
    have Py: "?P \<le> y" using bitlen_bounds[OF y] by simp
    have "?u dvd ?P" using y by (intro pow2_dvd_pow2) (simp add: ulp_exp_def)
    then have "?P \<le> y div ?u * ?u" using Py by (intro floor_multiple) simp_all
    with gP show ?thesis by simp
  qed
  with to_double_nonneg_bounds(1)[of y] y show ?thesis by simp
qed

lemma to_double_le_nonneg:
  assumes "is_double g" and "0 \<le> y" and "y \<le> g"
  shows "to_double y \<le> g"
proof (cases "y mod 2 ^ ulp_exp y = 0")
  case True
  with to_double_nonneg_bounds(2)[OF assms(2)] assms(3) show ?thesis by simp
next
  case False
  let ?u = "(2::int) ^ ulp_exp y"
  from False have y: "0 < y" using assms(2) by (cases "y = 0") simp_all
  with assms(3) have g: "0 < g" by simp
  have bl: "bitlen y \<le> bitlen g" using y assms(3) by (rule bitlen_mono)
  have "(y div ?u + 1) * ?u \<le> g"
  proof (cases "bitlen g = bitlen y")
    case True
    then have "ulp_exp g = ulp_exp y" using g y by (simp add: ulp_exp_def)
    with assms(1) have "?u dvd g" by (simp add: is_double_def)
    then show ?thesis using assms(3) False by (intro ceil_multiple) simp_all
  next
    case F: False
    with bl have lt: "bitlen y < bitlen g" by simp
    let ?P = "(2::int) ^ nat (bitlen y)"
    have yP: "y \<le> ?P" using bitlen_bounds[OF y] by simp
    have "?P \<le> 2 ^ nat (bitlen g - 1)" using lt by (intro power_increasing) simp_all
    also have "\<dots> \<le> g" using bitlen_bounds[OF g] by simp
    finally have Pg: "?P \<le> g" .
    have "?u dvd ?P" using y by (intro pow2_dvd_pow2) (simp add: ulp_exp_def)
    then have "(y div ?u + 1) * ?u \<le> ?P" using yP False by (intro ceil_multiple) simp_all
    with Pg show ?thesis by simp
  qed
  with to_double_nonneg_bounds(2)[OF assms(2)] False show ?thesis by simp
qed

lemma to_double_nonneg: "0 \<le> y \<Longrightarrow> 0 \<le> to_double y"
  using to_double_ge_nonneg[of 0 y] by (simp add: is_double_def)

text \<open>Rounding never crosses a double.\<close>

lemma to_double_ge:
  assumes "is_double g" and "g \<le> y"
  shows "g \<le> to_double y"
proof (cases "0 \<le> y")
  case True
  show ?thesis
  proof (cases "0 \<le> g")
    case True
    with assms show ?thesis by (intro to_double_ge_nonneg)
  next
    case False
    with to_double_nonneg[OF True] show ?thesis by simp
  qed
next
  case False
  then have "0 \<le> - y" and "- y \<le> - g" using assms(2) by simp_all
  with assms(1) have "to_double (- y) \<le> - g"
    by (intro to_double_le_nonneg) (simp_all add: is_double_minus)
  then show ?thesis by (simp add: to_double_minus)
qed

lemma to_double_le:
  assumes "is_double g" and "y \<le> g"
  shows "to_double y \<le> g"
  using to_double_ge[of "- g" "- y"] assms by (simp add: to_double_minus is_double_minus)

lemma ulp_exp_of_bitlen: "0 < z \<Longrightarrow> bitlen z = 53 + int e \<Longrightarrow> ulp_exp z = e"
  by (simp add: ulp_exp_def)

lemma is_double_to_double: "is_double (to_double x)"
proof -
  have nonneg: "is_double (to_double y)" if "0 \<le> y" for y
  proof (cases "ulp_exp y = 0")
    case True
    then have "to_double y = y" using that by (simp add: to_double_def Let_def sgn_if)
    with True show ?thesis by (simp add: is_double_def)
  next
    case False
    let ?e = "ulp_exp y"
    let ?u = "(2::int) ^ ?e"
    from False that have y: "0 < y" by (cases "y = 0") (simp_all add: ulp_exp_def)
    from False y have bl: "bitlen y = 53 + int ?e" by (simp add: ulp_exp_def)
    have lo: "(2::int) ^ (52 + ?e) \<le> y" and hi: "y < 2 ^ (53 + ?e)"
      using bitlen_bounds[OF y] bl by (simp_all add: nat_add_distrib)
    have up: "to_double y \<le> 2 ^ (53 + ?e)"
    proof (rule to_double_le)
      show "is_double (2 ^ (53 + ?e))" by (rule is_double_power2)
      show "y \<le> 2 ^ (53 + ?e)" using hi by simp
    qed
    have dn: "(2::int) ^ (52 + ?e) \<le> to_double y"
    proof (rule to_double_ge)
      show "is_double (2 ^ (52 + ?e))" by (rule is_double_power2)
      show "(2::int) ^ (52 + ?e) \<le> y" by (rule lo)
    qed
    have dv: "?u dvd to_double y" using y by (simp add: to_double_def Let_def)
    show ?thesis
    proof (cases "to_double y = 2 ^ (53 + ?e)")
      case True
      with is_double_power2[of "53 + ?e"] show ?thesis by simp
    next
      case F: False
      with up have lt: "to_double y < 2 ^ (53 + ?e)" by simp
      have p: "0 < to_double y" using dn by (smt (verit) zero_less_power)
      have "bitlen (to_double y) \<le> 53 + int ?e"
        using lt by (simp add: bitlen_le_iff_power nat_add_distrib)
      moreover have "53 + int ?e \<le> bitlen (to_double y)"
        using dn by (simp add: bitlen_ge_iff_power nat_add_distrib)
      ultimately have "bitlen (to_double y) = 53 + int ?e" by simp
      then have "ulp_exp (to_double y) = ?e" by (rule ulp_exp_of_bitlen[OF p])
      with dv show ?thesis by (simp add: is_double_def)
    qed
  qed
  show ?thesis
  proof (cases "0 \<le> x")
    case True
    then show ?thesis by (rule nonneg)
  next
    case False
    then have "is_double (to_double (- x))" by (intro nonneg) simp
    then show ?thesis by (simp add: to_double_minus is_double_minus)
  qed
qed

lemma to_double_idem: "to_double (to_double x) = to_double x"
  by (rule to_double_fixed[OF is_double_to_double])

lemma is_double_small: "\<bar>x\<bar> < 2 ^ 53 \<Longrightarrow> is_double x"
  by (simp add: is_double_def ulp_exp_small)

lemma to_double_zero: "to_double 0 = 0"
  by (simp add: to_double_small)

lemma real_add_zero: "real_add 0 b = to_double b"
  by (simp add: real_add_def to_double_zero to_double_idem)

lemma real_add_safe:
  assumes "\<bar>a\<bar> \<le> MAX_SAFE_INTEGER" and "\<bar>b\<bar> \<le> MAX_SAFE_INTEGER"
    and "\<bar>a + b\<bar> \<le> MAX_SAFE_INTEGER"
  shows "real_add a b = a + b"
proof -
  have "\<bar>a\<bar> < 2 ^ 53" "\<bar>b\<bar> < 2 ^ 53" "\<bar>a + b\<bar> < 2 ^ 53"
    using assms by (simp_all add: MAX_SAFE_INTEGER_def)
  then show ?thesis by (simp add: real_add_def to_double_small)
qed

lemma real_add_ge:
  assumes "is_double a" and "0 \<le> b"
  shows "a \<le> real_add a b"
proof -
  have "0 \<le> to_double b" using assms(2) by (rule to_double_nonneg)
  then have "a \<le> to_double (a + to_double b)"
    using assms(1) by (intro to_double_ge) simp_all
  then show ?thesis using assms(1) by (simp add: real_add_def to_double_fixed)
qed

lemma is_double_real_add: "is_double (real_add a b)"
  by (simp add: real_add_def is_double_to_double)

lemma getFees_safe:
  assumes "\<bar>paid_counter d\<bar> \<le> MAX_SAFE_INTEGER" and "\<bar>received_counter d\<bar> \<le> MAX_SAFE_INTEGER"
  shows "getFees d =
     Inr \<lparr>miningFeePaid = paid_counter d, miningFeeReceived = received_counter d\<rparr>"
proof (cases "fees_tbl d")
  case None
  then show ?thesis by (simp add: getFees_def paid_counter_def received_counter_def)
next
  case (Some r)
  with assms show ?thesis
    by (simp add: getFees_def paid_counter_def received_counter_def column_number_def)
qed

subsection \<open>The example states\<close>

lemmas store_defs = createInvoice_def settleInvoice_def settlePayment_def createPayment_def
  getInvoiceById_def settle_invoice_run_def settle_payment_run_def fees_received_run_def
  fees_paid_run_def updateWalletState_def wallet_run_def next_rowid_def default_rec_def
  recToTx_def or_empty_def or_undefined_def payment_match_def ROLLBACK_TRANSACTION_def
  COMMIT_TRANSACTION_def empty_db_def deleteInvoice_def completeInvoice_def complete_row_def
  to_double_zero

lemma ex_created_eq:
  "ex_created =
     \<lparr>records_tbl = [(default_rec 1)\<lparr>pubkey := ''alice'', created_at := 50\<rparr>],
      records_seq = 1, wallets_tbl = [], wallets_seq = 0, fees_tbl = None\<rparr>"
  by (simp add: ex_created_def store_defs)

lemma ex_settled_eq:
  "ex_settled =
     \<lparr>records_tbl = [(default_rec 1)\<lparr>pubkey := ''alice'', created_at := 50, is_paid := 1,
                        settled_at := 100\<rparr>],
      records_seq = 1,
      wallets_tbl = [\<lparr>w_id = 1, w_pubkey = ''alice'', w_balance = 1000, w_channel_size = 0,
                       w_fee_credit = 0\<rparr>],
      wallets_seq = 1,
      fees_tbl = Some \<lparr>mining_fee_paid = 0, mining_fee_received = 0\<rparr>\<rparr>"
  by (simp add: ex_settled_def ex_created_eq ws0_def store_defs)

subsection \<open>The watermark\<close>





subsection \<open>Deleting an invoice\<close>

text \<open>
  Claim C4, as the code has it.  \<open>deleteInvoice\<close> removes the record with the given id
  when it is an incoming one, settled or not: the statement tests the direction only.
  Every other record stays, the wallets and the fee counters are untouched, and when no
  incoming record has the id (it is absent, or outgoing) the store is unchanged.  The
  operation has no error result.
\<close>

theorem deleteInvoice_incoming_only:
  "records_tbl (deleteInvoice i d) =
     filter (\<lambda>r. rid r \<noteq> i \<or> is_outgoing r \<noteq> 0) (records_tbl d)
   \<and> (\<forall>r\<in>set (records_tbl d). rid r = i \<and> is_outgoing r = 0 \<longrightarrow>
         r \<notin> set (records_tbl (deleteInvoice i d)))
   \<and> ((\<forall>r\<in>set (records_tbl d). rid r = i \<longrightarrow> is_outgoing r \<noteq> 0) \<longrightarrow>
         deleteInvoice i d = d)
   \<and> wallets_tbl (deleteInvoice i d) = wallets_tbl d
   \<and> fees_tbl (deleteInvoice i d) = fees_tbl d"
proof -
  have "deleteInvoice i d = d"
    if "\<forall>r\<in>set (records_tbl d). rid r = i \<longrightarrow> is_outgoing r \<noteq> 0"
  proof -
    from that have "filter (\<lambda>r. \<not> (rid r = i \<and> is_outgoing r = 0)) (records_tbl d) = records_tbl d"
      by (auto simp: filter_id_conv)
    then show ?thesis by (simp add: deleteInvoice_def)
  qed
  then show ?thesis by (auto simp: deleteInvoice_def)
qed

theorem deleteInvoice_witness:
  "map is_paid (records_tbl ex_settled) = [1]
   \<and> records_tbl (deleteInvoice 1 ex_settled) = []
   \<and> deleteInvoice 2 ex_settled = ex_settled"
  using deleteInvoice_incoming_only[of 1 ex_settled] deleteInvoice_incoming_only[of 2 ex_settled]
  by (simp add: ex_settled_eq default_rec_def)

text \<open>The claim as stated fails: the settled invoice 1 of \<open>ex_settled\<close> is deleted.\<close>

theorem deleteInvoice_settled_counterexample:
  "map rid (records_tbl ex_settled) = [1]
   \<and> map is_paid (records_tbl ex_settled) = [1]
   \<and> map settled_at (records_tbl ex_settled) = [100]
   \<and> records_tbl (deleteInvoice 1 ex_settled) = []
   \<and> deleteInvoice 1 ex_settled \<noteq> ex_settled"
  by (simp add: ex_settled_eq default_rec_def deleteInvoice_def)

subsection \<open>Completing an invoice\<close>

lemma find_map_rid:
  assumes "\<And>x. rid (f x) = rid x"
  shows "find (\<lambda>r. rid r = j) (map f xs) = map_option f (find (\<lambda>r. rid r = j) xs)"
  using assms by (induction xs) auto

lemma count_rid_distinct:
  "distinct (map rid xs) \<Longrightarrow> find (\<lambda>r. rid r = i) xs = Some r \<Longrightarrow>
   length (filter (\<lambda>r. rid r = i) xs) = 1"
proof (induction xs)
  case Nil
  then show ?case by simp
next
  case (Cons x xs)
  show ?case
  proof (cases "rid x = i")
    case True
    with Cons.prems(1) have "\<forall>y\<in>set xs. rid y \<noteq> i"
      by (metis distinct.simps(2) imageI list.simps(9) set_map)
    then have "filter (\<lambda>r. rid r = i) xs = []"
      by (simp add: filter_empty_conv)
    with True show ?thesis by simp
  next
    case False
    with Cons show ?thesis by simp
  qed
qed

text \<open>
  Claim C9, as the code has it.  For a record that exists, \<open>completeInvoice\<close> succeeds
  and sets six columns of it from the invoice: payment hash, description, description
  hash, amount, created-at and expiry.  The other columns of the record (id, owning key,
  direction, paid flag, preimage, fees paid, settled-at), every other record, the wallets
  and the fee counters are unchanged.
\<close>

theorem completeInvoice_frame:
  assumes "distinct (map rid (records_tbl d))" and "lookup_rec i d = Some r"
  shows "fst (completeInvoice i iv d) = Inr ()
   \<and> lookup_rec i (snd (completeInvoice i iv d)) =
       Some (r\<lparr>payment_hash := tx_payment_hash iv,
               description := or_empty (tx_description iv),
               description_hash := or_empty (tx_description_hash iv),
               amount := Some (tx_amount iv),
               created_at := tx_created_at iv,
               expires_at := tx_expires_at iv\<rparr>)
   \<and> (\<forall>j. j \<noteq> i \<longrightarrow> lookup_rec j (snd (completeInvoice i iv d)) = lookup_rec j d)
   \<and> map rid (records_tbl (snd (completeInvoice i iv d))) = map rid (records_tbl d)
   \<and> wallets_tbl (snd (completeInvoice i iv d)) = wallets_tbl d
   \<and> fees_tbl (snd (completeInvoice i iv d)) = fees_tbl d"
proof -
  let ?f = "\<lambda>r. if rid r = i then complete_row iv r else r"
  have keep: "\<And>x. rid (?f x) = rid x" by (simp add: complete_row_def)
  have one: "length (filter (\<lambda>r. rid r = i) (records_tbl d)) = 1"
    using assms count_rid_distinct by (simp add: lookup_rec_def)
  have res: "completeInvoice i iv d = (Inr (), d\<lparr>records_tbl := map ?f (records_tbl d)\<rparr>)"
    using one by (simp add: completeInvoice_def)
  have look: "\<And>j. lookup_rec j (d\<lparr>records_tbl := map ?f (records_tbl d)\<rparr>) =
      map_option ?f (lookup_rec j d)"
    using find_map_rid[of ?f, OF keep] by (simp add: lookup_rec_def)
  have ri: "rid r = i" using assms(2) by (auto simp: lookup_rec_def dest: find_Some_iff[THEN iffD1])
  have other: "lookup_rec j (d\<lparr>records_tbl := map ?f (records_tbl d)\<rparr>) = lookup_rec j d"
    if "j \<noteq> i" for j
  proof (cases "lookup_rec j d")
    case None
    then show ?thesis by (simp add: look)
  next
    case (Some q)
    then have "rid q = j" by (auto simp: lookup_rec_def dest: find_Some_iff[THEN iffD1])
    with that Some show ?thesis by (simp add: look)
  qed
  show ?thesis
    using ri other by (simp add: res look assms(2) complete_row_def keep cong: map_cong)
qed

theorem completeInvoice_witness:
  "distinct (map rid (records_tbl ex_created))
   \<and> lookup_rec 1 ex_created = Some ((default_rec 1)\<lparr>pubkey := ''alice'', created_at := 50\<rparr>)
   \<and> fst (completeInvoice 1 iv0 ex_created) = Inr ()
   \<and> lookup_rec 1 (snd (completeInvoice 1 iv0 ex_created)) =
       Some ((default_rec 1)\<lparr>pubkey := ''alice'', payment_hash := ''h1'',
          description := ''tea'', amount := Some 21000, created_at := 60, expires_at := 180\<rparr>)"
  using completeInvoice_frame[of ex_created 1 "(default_rec 1)\<lparr>pubkey := ''alice'', created_at := 50\<rparr>" iv0]
  by (simp add: ex_created_eq lookup_rec_def iv0_def or_empty_def default_rec_def)

text \<open>The claim as stated fails: the created-at stamp 50 that \<open>createInvoice\<close> set is
  replaced by the invoice's own, 60.\<close>

theorem completeInvoice_created_at_counterexample:
  "map created_at (records_tbl ex_created) = [50]
   \<and> fst (completeInvoice 1 iv0 ex_created) = Inr ()
   \<and> map created_at (records_tbl (snd (completeInvoice 1 iv0 ex_created))) = [60]"
  by (simp add: ex_created_eq iv0_def store_defs)

subsection \<open>Settling an invoice\<close>













lemma wallet_run_frame:
  "records_tbl (fst (wallet_run k ws d)) = records_tbl d \<and>
   records_seq (fst (wallet_run k ws d)) = records_seq d \<and>
   fees_tbl (fst (wallet_run k ws d)) = fees_tbl d"
  by (simp add: wallet_run_def Let_def)













subsection \<open>Settling a payment\<close>

lemma ex_unpaid_out_eq:
  "ex_unpaid_out =
     \<lparr>records_tbl = [(default_rec 1)\<lparr>pubkey := ''alice'', created_at := 50, is_paid := 1,
                        settled_at := 100\<rparr>,
                     (default_rec 2)\<lparr>is_outgoing := 1, pubkey := ''alice'',
                        payment_hash := ''h1'', description := ''tea'',
                        amount := Some 21000, created_at := 150\<rparr>],
      records_seq = 2,
      wallets_tbl = [\<lparr>w_id = 1, w_pubkey = ''alice'', w_balance = 1000, w_channel_size = 0,
                       w_fee_credit = 0\<rparr>],
      wallets_seq = 1,
      fees_tbl = Some \<lparr>mining_fee_paid = 0, mining_fee_received = 0\<rparr>\<rparr>"
  by (simp add: ex_unpaid_out_def ex_settled_eq iv0_def store_defs)

text \<open>
  Claim C2.  Whenever \<open>settlePayment\<close> raises, the database after the call is the
  database before it.  In particular, when the wallet upsert raises, the call raises
  (the engine's error if exactly one unpaid record matched, not-found otherwise), every
  record that matched is still there and still unpaid, and no wallet row has changed.
\<close>

theorem settlePayment_atomic:
  "(\<forall>e. fst (settlePayment raises k h fp ws now d) = Inl e \<longrightarrow>
        snd (settlePayment raises k h fp ws now d) = d)
   \<and> settlePayment True k h fp ws now d =
       (Inl (if length (filter (payment_match k h) (records_tbl d)) = 1
             then SqliteError else PaymentNotFound), d)
   \<and> (\<forall>r\<in>set (records_tbl d). payment_match k h r \<longrightarrow>
         r \<in> set (records_tbl (snd (settlePayment True k h fp ws now d))) \<and> is_paid r = 0)
   \<and> wallets_tbl (snd (settlePayment True k h fp ws now d)) = wallets_tbl d"
proof -
  have a: "snd (settlePayment raises k h fp ws now d) = d"
    if "fst (settlePayment raises k h fp ws now d) = Inl e" for e
    using that
    by (auto simp: settlePayment_def ROLLBACK_TRANSACTION_def split_beta Let_def
        split: if_splits sum.splits prod.splits)
  have b: "settlePayment True k h fp ws now d =
       (Inl (if length (filter (payment_match k h) (records_tbl d)) = 1
             then SqliteError else PaymentNotFound), d)"
    by (simp add: settlePayment_def settle_payment_run_def updateWalletState_def
        ROLLBACK_TRANSACTION_def)
  show ?thesis
    unfolding b snd_conv using a by (auto simp: payment_match_def)
qed

theorem settlePayment_atomic_witness:
  "map is_paid (records_tbl ex_unpaid_out) = [1, 0]
   \<and> map is_paid (records_tbl (fst (settle_payment_run 7 200 ''alice'' ''h1'' ex_unpaid_out)))
       = [1, 1]
   \<and> settlePayment True ''alice'' ''h1'' 7 ws1 200 ex_unpaid_out
       = (Inl SqliteError, ex_unpaid_out)
   \<and> map fees_paid (records_tbl ex_unpaid_out) = [0, 0]
   \<and> map settled_at (records_tbl ex_unpaid_out) = [100, 0]
   \<and> lookup_wallet ''alice'' ex_unpaid_out = Some ws0"
  using settlePayment_atomic[of True "''alice''" "''h1''" 7 ws1 200 ex_unpaid_out]
  by (simp add: ex_unpaid_out_eq default_rec_def settle_payment_run_def payment_match_def
      lookup_wallet_def listWallets_def ws0_def)

subsection \<open>The fee counters\<close>

lemma addMiningFeePaid_counters:
  "fst (addMiningFeePaid a d) = Inr ()
   \<and> paid_counter (snd (addMiningFeePaid a d)) = real_add (paid_counter d) a
   \<and> received_counter (snd (addMiningFeePaid a d)) = received_counter d"
  by (simp add: addMiningFeePaid_def fees_paid_run_def paid_counter_def received_counter_def
      real_add_zero split: option.splits)

lemma wallet_step_fees:
  "fees_tbl (snd (updateWalletState raises k ws d)) = fees_tbl d"
  by (simp add: updateWalletState_def wallet_run_def Let_def split_beta)

lemma settleInvoice_counters:
  "paid_counter (snd (settleInvoice raises k i t ws fee d)) = paid_counter d
   \<and> (received_counter (snd (settleInvoice raises k i t ws fee d)) = received_counter d
      \<or> received_counter (snd (settleInvoice raises k i t ws fee d)) =
          real_add (received_counter d) fee)"
proof -
  let ?da = "fst (settle_invoice_run t i d)"
  let ?db = "fst (fees_received_run fee ?da)"
  have "snd (settleInvoice raises k i t ws fee d) = d \<or>
        snd (settleInvoice raises k i t ws fee d) = snd (updateWalletState raises k ws ?db)"
    by (auto simp: settleInvoice_def ROLLBACK_TRANSACTION_def COMMIT_TRANSACTION_def
        split_beta Let_def split: sum.splits)
  moreover have "paid_counter (snd (updateWalletState raises k ws ?db)) = paid_counter d"
    and "received_counter (snd (updateWalletState raises k ws ?db)) =
      real_add (received_counter d) fee"
    by (simp_all add: paid_counter_def received_counter_def wallet_step_fees
        fees_received_run_def settle_invoice_run_def real_add_zero split: option.splits)
  ultimately show ?thesis by auto
qed

lemma settlePayment_fees:
  "fees_tbl (snd (settlePayment raises k h fp ws now d)) = fees_tbl d"
proof -
  let ?da = "fst (settle_payment_run fp now k h d)"
  have "snd (settlePayment raises k h fp ws now d) = d \<or>
        snd (settlePayment raises k h fp ws now d) = snd (updateWalletState raises k ws ?da)"
    by (auto simp: settlePayment_def ROLLBACK_TRANSACTION_def COMMIT_TRANSACTION_def
        split_beta Let_def split: sum.splits)
  moreover have "fees_tbl (snd (updateWalletState raises k ws ?da)) = fees_tbl d"
    by (simp add: wallet_step_fees settle_payment_run_def)
  ultimately show ?thesis by auto
qed

text \<open>What one call does to the paid counter, and to the received counter.\<close>

lemma db_after_paid:
  "paid_counter (db_after op d) =
     (case op of AddMiningFeePaid a \<Rightarrow> real_add (paid_counter d) a | other \<Rightarrow> paid_counter d)"
proof (cases op)
  case (AddMiningFeePaid fee)
  then show ?thesis by (simp add: addMiningFeePaid_counters)
next
  case (SettleInvoice raises k i t ws fee)
  then show ?thesis by (simp add: settleInvoice_counters)
next
  case (SettlePayment raises k h fp ws now)
  then show ?thesis by (simp add: paid_counter_def settlePayment_fees)
qed (simp_all add: paid_counter_def createInvoice_def deleteInvoice_def completeInvoice_def
      createPayment_def deletePayment_def Let_def)

lemma db_after_received:
  "received_counter (db_after op d) = received_counter d
   \<or> (\<exists>raises k i t ws fee. op = SettleInvoice raises k i t ws fee
        \<and> received_counter (db_after op d) = real_add (received_counter d) fee)"
proof (cases op)
  case (AddMiningFeePaid fee)
  then show ?thesis by (simp add: addMiningFeePaid_counters)
next
  case (SettleInvoice raises k i t ws fee)
  then show ?thesis using settleInvoice_counters[of raises k i t ws fee d] by auto
next
  case (SettlePayment raises k h fp ws now)
  then show ?thesis by (simp add: received_counter_def settlePayment_fees)
qed (simp_all add: received_counter_def createInvoice_def deleteInvoice_def
      completeInvoice_def createPayment_def deletePayment_def Let_def)

lemma db_after_fees_wf: "fees_wf d \<Longrightarrow> fees_wf (db_after op d)"
proof -
  assume wf: "fees_wf d"
  have "is_double (paid_counter (db_after op d))"
    unfolding db_after_paid
    using wf by (cases op) (simp_all add: is_double_real_add fees_wf_def)
  moreover have "is_double (received_counter (db_after op d))"
    using wf db_after_received[of op d] by (auto simp: is_double_real_add fees_wf_def)
  ultimately show ?thesis by (simp add: fees_wf_def)
qed

lemma run_ops_fees_wf: "fees_wf d \<Longrightarrow> fees_wf (run_ops ops d)"
  unfolding run_ops_def
  by (induction ops arbitrary: d) (simp_all add: db_after_fees_wf)

text \<open>Every store built from the empty one holds doubles in both counters.\<close>

lemma fees_wf_reachable: "fees_wf (run_ops ops empty_db)"
  by (rule run_ops_fees_wf)
     (simp add: fees_wf_def paid_counter_def received_counter_def empty_db_def
        is_double_small)

lemma db_after_paid_exact:
  assumes "0 \<le> fee_paid_arg op" and "0 \<le> paid_counter d"
    and "paid_counter d + fee_paid_arg op \<le> MAX_SAFE_INTEGER"
  shows "paid_counter (db_after op d) = paid_counter d + fee_paid_arg op"
  unfolding db_after_paid
  using assms by (cases op) (simp_all add: real_add_safe)

lemma sum_list_fee_nonneg:
  "list_all (\<lambda>op. 0 \<le> fee_paid_arg op) ops \<Longrightarrow> 0 \<le> sum_list (map fee_paid_arg ops)"
  by (induction ops) simp_all

lemma run_ops_paid_exact:
  "list_all (\<lambda>op. 0 \<le> fee_paid_arg op) ops \<Longrightarrow> 0 \<le> paid_counter d \<Longrightarrow>
   paid_counter d + sum_list (map fee_paid_arg ops) \<le> MAX_SAFE_INTEGER \<Longrightarrow>
   paid_counter (run_ops ops d) = paid_counter d + sum_list (map fee_paid_arg ops)"
  unfolding run_ops_def
proof (induction ops arbitrary: d)
  case Nil
  then show ?case by simp
next
  case (Cons op ops)
  have rest: "list_all (\<lambda>op. 0 \<le> fee_paid_arg op) ops" and f: "0 \<le> fee_paid_arg op"
    using Cons.prems(1) by simp_all
  have r0: "0 \<le> sum_list (map fee_paid_arg ops)" using rest by (rule sum_list_fee_nonneg)
  have one: "paid_counter (db_after op d) = paid_counter d + fee_paid_arg op"
    using f Cons.prems(2,3) r0 by (intro db_after_paid_exact) simp_all
  have "paid_counter (foldl (\<lambda>s op. db_after op s) (db_after op d) ops) =
      paid_counter (db_after op d) + sum_list (map fee_paid_arg ops)"
    using rest f Cons.prems(2,3) by (intro Cons.IH) (simp_all add: one)
  then show ?case by (simp add: one)
qed

lemma db_after_monotone:
  assumes "fees_wf d" and "fee_arg_nonneg op"
  shows "paid_counter d \<le> paid_counter (db_after op d)
       \<and> received_counter d \<le> received_counter (db_after op d)"
proof -
  have wp: "is_double (paid_counter d)" and wr: "is_double (received_counter d)"
    using assms(1) by (simp_all add: fees_wf_def)
  have "paid_counter d \<le> paid_counter (db_after op d)"
    unfolding db_after_paid
    using assms(2) wp by (cases op) (simp_all add: real_add_ge)
  moreover have "received_counter d \<le> received_counter (db_after op d)"
    using assms(2) wr db_after_received[of op d] by (auto simp: real_add_ge)
  ultimately show ?thesis by simp
qed

lemma run_ops_monotone:
  "fees_wf d \<Longrightarrow> list_all fee_arg_nonneg ops \<Longrightarrow>
   paid_counter d \<le> paid_counter (run_ops ops d) \<and>
   received_counter d \<le> received_counter (run_ops ops d)"
  unfolding run_ops_def
proof (induction ops arbitrary: d)
  case Nil
  then show ?case by simp
next
  case (Cons op ops)
  have one: "paid_counter d \<le> paid_counter (db_after op d)
       \<and> received_counter d \<le> received_counter (db_after op d)"
    using Cons.prems by (intro db_after_monotone) simp_all
  have "fees_wf (db_after op d)" using Cons.prems(1) by (rule db_after_fees_wf)
  moreover have "list_all fee_arg_nonneg ops" using Cons.prems(2) by simp
  ultimately have "paid_counter (db_after op d)
        \<le> paid_counter (foldl (\<lambda>s op. db_after op s) (db_after op d) ops)
      \<and> received_counter (db_after op d)
        \<le> received_counter (foldl (\<lambda>s op. db_after op s) (db_after op d) ops)"
    by (rule Cons.IH)
  with one show ?case by simp
qed

text \<open>
  Claim C7, as the code has it.  \<open>addMiningFeePaid\<close> never fails.  For non-negative
  \<open>a\<close> and \<open>b\<close> and a paid counter \<open>p \<ge> 0\<close> with \<open>p + a + b\<close> a safe integer, two
  calls leave the paid counter at \<open>p + a + b\<close>, from any state of the fee table, the
  empty one included, and in either order they leave the same database.  After any
  sequence of store calls in which the amounts of the \<open>addMiningFeePaid\<close> calls are
  non-negative and their sum with \<open>p\<close> is a safe integer, the paid counter is that sum,
  whatever else is interleaved.  When both counters are doubles, as in every store built
  from the empty one, and every fee argument in the sequence is non-negative, neither
  counter has decreased, at any magnitude.  While both counters are safe integers
  \<open>getFees\<close> returns them.
\<close>

theorem addMiningFeePaid_additive:
  "fst (addMiningFeePaid a d) = Inr ()
   \<and> (0 \<le> a \<and> 0 \<le> b \<and> 0 \<le> paid_counter d
        \<and> paid_counter d + a + b \<le> MAX_SAFE_INTEGER \<longrightarrow>
        paid_counter (snd (addMiningFeePaid b (snd (addMiningFeePaid a d)))) =
          paid_counter d + (a + b)
        \<and> snd (addMiningFeePaid b (snd (addMiningFeePaid a d))) =
          snd (addMiningFeePaid a (snd (addMiningFeePaid b d))))
   \<and> (list_all (\<lambda>op. 0 \<le> fee_paid_arg op) ops \<and> 0 \<le> paid_counter d
        \<and> paid_counter d + sum_list (map fee_paid_arg ops) \<le> MAX_SAFE_INTEGER \<longrightarrow>
        paid_counter (run_ops ops d) = paid_counter d + sum_list (map fee_paid_arg ops))
   \<and> (fees_wf d \<and> list_all fee_arg_nonneg ops \<longrightarrow>
        paid_counter d \<le> paid_counter (run_ops ops d) \<and>
        received_counter d \<le> received_counter (run_ops ops d))
   \<and> (\<bar>paid_counter d\<bar> \<le> MAX_SAFE_INTEGER \<and> \<bar>received_counter d\<bar> \<le> MAX_SAFE_INTEGER \<longrightarrow>
        getFees d =
          Inr \<lparr>miningFeePaid = paid_counter d, miningFeeReceived = received_counter d\<rparr>)"
proof (intro conjI impI)
  show "fst (addMiningFeePaid a d) = Inr ()" by (simp add: addMiningFeePaid_counters)
next
  assume h: "0 \<le> a \<and> 0 \<le> b \<and> 0 \<le> paid_counter d
        \<and> paid_counter d + a + b \<le> MAX_SAFE_INTEGER"
  have ab: "real_add (real_add (paid_counter d) a) b = paid_counter d + (a + b)"
    using h by (simp add: real_add_safe)
  have ba: "real_add (real_add (paid_counter d) b) a = paid_counter d + (a + b)"
    using h by (simp add: real_add_safe)
  show "paid_counter (snd (addMiningFeePaid b (snd (addMiningFeePaid a d)))) =
          paid_counter d + (a + b)"
    by (simp add: addMiningFeePaid_counters ab)
  have sm: "\<bar>a\<bar> < 2 ^ 53" "\<bar>b\<bar> < 2 ^ 53" using h by (simp_all add: MAX_SAFE_INTEGER_def)
  show "snd (addMiningFeePaid b (snd (addMiningFeePaid a d))) =
          snd (addMiningFeePaid a (snd (addMiningFeePaid b d)))"
  proof (cases "fees_tbl d")
    case None
    have "real_add a b = a + b" "real_add b a = a + b"
      using h None by (simp_all add: real_add_safe paid_counter_def)
    with None sm show ?thesis
      by (simp add: addMiningFeePaid_def fees_paid_run_def to_double_small)
  next
    case (Some f)
    with ab ba show ?thesis
      by (simp add: addMiningFeePaid_def fees_paid_run_def paid_counter_def)
  qed
next
  assume "list_all (\<lambda>op. 0 \<le> fee_paid_arg op) ops \<and> 0 \<le> paid_counter d
        \<and> paid_counter d + sum_list (map fee_paid_arg ops) \<le> MAX_SAFE_INTEGER"
  then show "paid_counter (run_ops ops d) = paid_counter d + sum_list (map fee_paid_arg ops)"
    by (intro run_ops_paid_exact) simp_all
next
  assume "fees_wf d \<and> list_all fee_arg_nonneg ops"
  then have m: "paid_counter d \<le> paid_counter (run_ops ops d) \<and>
      received_counter d \<le> received_counter (run_ops ops d)"
    by (intro run_ops_monotone) simp_all
  from m show "paid_counter d \<le> paid_counter (run_ops ops d)" by simp
  from m show "received_counter d \<le> received_counter (run_ops ops d)" by simp
next
  assume "\<bar>paid_counter d\<bar> \<le> MAX_SAFE_INTEGER \<and> \<bar>received_counter d\<bar> \<le> MAX_SAFE_INTEGER"
  then show "getFees d =
      Inr \<lparr>miningFeePaid = paid_counter d, miningFeeReceived = received_counter d\<rparr>"
    by (intro getFees_safe) simp_all
qed

theorem addMiningFeePaid_additive_witness:
  "list_all fee_arg_nonneg ex_ops
   \<and> fees_wf empty_db
   \<and> getFees empty_db = Inr \<lparr>miningFeePaid = 0, miningFeeReceived = 0\<rparr>
   \<and> getFees (snd (addMiningFeePaid 4 (snd (addMiningFeePaid 3 empty_db))))
       = Inr \<lparr>miningFeePaid = 7, miningFeeReceived = 0\<rparr>
   \<and> getFees (run_ops ex_ops empty_db) = Inr \<lparr>miningFeePaid = 7, miningFeeReceived = 5\<rparr>"
  using addMiningFeePaid_additive[of 3 empty_db 4 ex_ops]
  by (simp add: ex_ops_def run_ops_def getFees_def addMiningFeePaid_def store_defs ws0_def
      real_add_def to_double_small column_number_def MAX_SAFE_INTEGER_def fees_wf_def
      paid_counter_def received_counter_def is_double_small)

text \<open>The claim as stated fails.  From the empty fee table, adding the largest safe integer
  and then 2 leaves the paid counter at \<open>2^53\<close>, one less than the sum, and
  \<open>getFees\<close> raises.  From a counter at \<open>2^53\<close>, adding 1 and then 2 leaves
  \<open>2^53 + 2\<close>, adding 2 and then 1 leaves \<open>2^53 + 4\<close>.\<close>

theorem addMiningFeePaid_rounding_counterexample:
  "paid_counter empty_db = 0
   \<and> paid_counter (snd (addMiningFeePaid 2 (snd (addMiningFeePaid 9007199254740991 empty_db))))
       = 9007199254740992
   \<and> paid_counter (snd (addMiningFeePaid 2 (snd (addMiningFeePaid 9007199254740991 empty_db))))
       \<noteq> paid_counter empty_db + (9007199254740991 + 2)
   \<and> getFees (snd (addMiningFeePaid 2 (snd (addMiningFeePaid 9007199254740991 empty_db))))
       = Inl OutOfRange
   \<and> paid_counter (snd (addMiningFeePaid 2 (snd (addMiningFeePaid 1
        (snd (addMiningFeePaid 1 (snd (addMiningFeePaid 9007199254740991 empty_db))))))))
       = 9007199254740994
   \<and> paid_counter (snd (addMiningFeePaid 1 (snd (addMiningFeePaid 2
        (snd (addMiningFeePaid 1 (snd (addMiningFeePaid 9007199254740991 empty_db))))))))
       = 9007199254740996"
  by (simp add: addMiningFeePaid_def fees_paid_run_def empty_db_def paid_counter_def
      getFees_def column_number_def MAX_SAFE_INTEGER_def real_add_def to_double_def
      ulp_exp_def Let_def compute_bitlen)

subsection \<open>Unique keys\<close>

lemma le_foldr_max: "i \<in> set ids \<Longrightarrow> i \<le> foldr max ids (seq::nat)"
  by (induction ids) auto

lemma next_rowid_fresh: "next_rowid seq ids \<notin> set ids"
  using le_foldr_max[of "next_rowid seq ids" ids seq] by (auto simp: next_rowid_def)

lemma wallet_run_wf:
  assumes "distinct (map w_pubkey (wallets_tbl d))"
  shows "distinct (map w_pubkey (wallets_tbl (fst (wallet_run k ws d))))"
proof (cases "list_ex (\<lambda>w. w_pubkey w = k) (wallets_tbl d)")
  case True
  have "map w_pubkey (map (\<lambda>w. if w_pubkey w = k
            then w\<lparr>w_balance := balance ws, w_channel_size := channelSize ws,
                   w_fee_credit := feeCredit ws\<rparr> else w) (wallets_tbl d)) =
        map w_pubkey (wallets_tbl d)"
    by simp
  with True assms show ?thesis by (simp add: wallet_run_def del: map_map)
next
  case False
  then have "k \<notin> set (map w_pubkey (wallets_tbl d))" by (auto simp: list_ex_iff)
  with False assms show ?thesis by (simp add: wallet_run_def Let_def)
qed

lemma updateWalletState_wf:
  "store_wf d \<Longrightarrow> store_wf (snd (updateWalletState raises k ws d))"
  using wallet_run_wf[of d k ws] wallet_run_frame[of k ws d]
  by (simp add: store_wf_def updateWalletState_def split_beta)

lemma settle_invoice_run_wf: "store_wf d \<Longrightarrow> store_wf (fst (settle_invoice_run t i d))"
proof -
  have "map rid (records_tbl (fst (settle_invoice_run t i d))) = map rid (records_tbl d)"
    by (simp add: settle_invoice_run_def)
  then show "store_wf d \<Longrightarrow> store_wf (fst (settle_invoice_run t i d))"
    by (simp add: store_wf_def settle_invoice_run_def del: map_map)
qed

lemma settle_payment_run_wf:
  "store_wf d \<Longrightarrow> store_wf (fst (settle_payment_run fp now k h d))"
proof -
  have "map rid (records_tbl (fst (settle_payment_run fp now k h d))) = map rid (records_tbl d)"
    by (simp add: settle_payment_run_def)
  then show "store_wf d \<Longrightarrow> store_wf (fst (settle_payment_run fp now k h d))"
    by (simp add: store_wf_def settle_payment_run_def del: map_map)
qed

lemma fees_received_run_wf: "store_wf d \<Longrightarrow> store_wf (fst (fees_received_run fee d))"
  by (simp add: store_wf_def fees_received_run_def split: option.splits)

lemma settleInvoice_wf:
  assumes "store_wf d"
  shows "store_wf (snd (settleInvoice raises k i t ws fee d))"
proof -
  let ?db = "fst (fees_received_run fee (fst (settle_invoice_run t i d)))"
  have "snd (settleInvoice raises k i t ws fee d) = d \<or>
        snd (settleInvoice raises k i t ws fee d) = snd (updateWalletState raises k ws ?db)"
    by (auto simp: settleInvoice_def ROLLBACK_TRANSACTION_def COMMIT_TRANSACTION_def
        split_beta Let_def split: sum.splits)
  moreover have "store_wf (snd (updateWalletState raises k ws ?db))"
    using assms by (intro updateWalletState_wf fees_received_run_wf settle_invoice_run_wf)
  ultimately show ?thesis using assms by auto
qed

lemma settlePayment_wf:
  assumes "store_wf d"
  shows "store_wf (snd (settlePayment raises k h fp ws now d))"
proof -
  let ?da = "fst (settle_payment_run fp now k h d)"
  have "snd (settlePayment raises k h fp ws now d) = d \<or>
        snd (settlePayment raises k h fp ws now d) = snd (updateWalletState raises k ws ?da)"
    by (auto simp: settlePayment_def ROLLBACK_TRANSACTION_def COMMIT_TRANSACTION_def
        split_beta Let_def split: sum.splits)
  moreover have "store_wf (snd (updateWalletState raises k ws ?da))"
    using assms by (intro updateWalletState_wf settle_payment_run_wf)
  ultimately show ?thesis using assms by auto
qed

lemma db_after_wf: "store_wf d \<Longrightarrow> store_wf (db_after op d)"
proof (cases op)
  case (AddMiningFeePaid fee)
  then show "store_wf d \<Longrightarrow> ?thesis"
    by (simp add: store_wf_def addMiningFeePaid_def fees_paid_run_def split: option.splits)
next
  case (CreateInvoice k now)
  then show "store_wf d \<Longrightarrow> ?thesis"
    using next_rowid_fresh[of "records_seq d" "map rid (records_tbl d)"]
    by (simp add: store_wf_def createInvoice_def Let_def default_rec_def)
next
  case (DeleteInvoice i)
  then show "store_wf d \<Longrightarrow> ?thesis"
    by (simp add: store_wf_def deleteInvoice_def distinct_map_filter)
next
  case (CompleteInvoice i iv)
  have "map rid (map (\<lambda>r. if rid r = i then complete_row iv r else r) (records_tbl d)) =
      map rid (records_tbl d)"
    by (simp add: complete_row_def)
  with CompleteInvoice show "store_wf d \<Longrightarrow> ?thesis"
    by (simp add: store_wf_def completeInvoice_def Let_def del: map_map)
next
  case (SettleInvoice raises k i t ws fee)
  then show "store_wf d \<Longrightarrow> ?thesis" by (simp add: settleInvoice_wf)
next
  case (CreatePayment k iv now)
  then show "store_wf d \<Longrightarrow> ?thesis"
    using next_rowid_fresh[of "records_seq d" "map rid (records_tbl d)"]
    by (simp add: store_wf_def createPayment_def Let_def default_rec_def)
next
  case (DeletePayment k h)
  then show "store_wf d \<Longrightarrow> ?thesis"
    by (simp add: store_wf_def deletePayment_def distinct_map_filter)
next
  case (SettlePayment raises k h fp ws now)
  then show "store_wf d \<Longrightarrow> ?thesis" by (simp add: settlePayment_wf)
qed

lemma run_ops_wf: "store_wf d \<Longrightarrow> store_wf (run_ops ops d)"
  unfolding run_ops_def
  by (induction ops arbitrary: d) (simp_all add: db_after_wf)

text \<open>
  Every store that a sequence of calls builds from the empty store has unique record ids
  and unique wallet keys, whatever the calls, their arguments and their outcomes.
\<close>

theorem store_wf_reachable: "store_wf (run_ops ops empty_db)"
  by (rule run_ops_wf) (simp add: store_wf_def empty_db_def)

subsection \<open>Listing transactions\<close>

lemma bound_past_args: "length args \<le> n \<Longrightarrow> bound args n = Null"
  by (simp add: bound_def)

lemma listTransactions_raises: "listTransactions req now d = Inl DatatypeMismatch"
proof -
  let ?n = "3 + (if req_unpaid req \<noteq> Some True then 1 else 0)
              + (if req_type req \<noteq> None then 1 else (0::nat))"
  have "length (list_args req now) = ?n" by (simp add: list_args_def)
  then have "bound (list_args req now) ?n = Null" by (simp add: bound_past_args)
  then show ?thesis by (simp add: listTransactions_def Let_def)
qed

text \<open>
  Claim C8, where the code departs from it.  \<open>listTransactions\<close> never reads the
  request's limit and offset: it binds five arguments at most, so the placeholders of
  \<open>LIMIT ? OFFSET ?\<close> stay unbound.  For the request \<open>ex_req\<close> (incoming, paid only,
  limit 1, offset 0) on a store with two paid invoices of the client, the call raises
  instead of returning one transaction, and it does the same whatever limit and offset
  the request carries.
\<close>

theorem listTransactions_paging_unbound:
  "map is_paid (records_tbl ex_two_paid) = [1, 1]
   \<and> map is_outgoing (records_tbl ex_two_paid) = [0, 0]
   \<and> map pubkey (records_tbl ex_two_paid) = [''alice'', ''alice'']
   \<and> map created_at (records_tbl ex_two_paid) = [50, 60]
   \<and> length (list_args ex_req 300) = 5
   \<and> bound (list_args ex_req 300) 5 = Null
   \<and> listTransactions ex_req 300 ex_two_paid = Inl DatatypeMismatch
   \<and> listTransactions (ex_req\<lparr>req_limit := l, req_offset := off\<rparr>) 300 ex_two_paid
       = listTransactions ex_req 300 ex_two_paid"
  by (simp add: listTransactions_raises)
     (simp add: ex_two_paid_def ex_settled_eq ex_req_def list_args_def bound_def ws1_def
        store_defs)


section \<open>Properties of the queue of incoming payments\<close>

lemmas adapter_defs = run_def syncPaymentsSince_def scheduleIncomingPayment_def
  processIncomingPayments_def resume_def after_try_def init_phoenixd_def Let_def

lemma n_distinct: "n1 \<noteq> n2" "n1 \<noteq> n3" "n2 \<noteq> n3" "fees n1 = 7" "fees n2 = 0" "fees n3 = 0"
  by (simp_all add: n1_def n2_def n3_def)

lemma ex_turns_trace:
  "run ex_turns init_phoenixd =
     \<lparr>incomingPaymentQueue = [], suspended = [],
      trace = [Begin n1, CallLiquidityFee n1 7, Settled n1 True,
               CallIncomingPayment n1 (to_event n1), Settled n1 True, End n1,
               Begin n2, CallIncomingPayment n2 (to_event n2), Settled n2 False, End n2,
               Begin n3, CallIncomingPayment n3 (to_event n3), Settled n3 True, End n3]\<rparr>"
  by (simp add: ex_turns_def adapter_defs n_distinct)

lemma begun_append: "begun (es @ fs) = begun es @ begun fs"
  by (induction es rule: begun.induct) simp_all

lemma ended_append: "ended (es @ fs) = ended es @ ended fs"
  by (induction es rule: ended.induct) simp_all

lemma received_append: "received (es @ fs) = received es @ received fs"
  by (induction es rule: received.induct) simp_all

lemma serial_run_append:
  "serial_run st (es @ fs) =
     (case serial_run st es of None \<Rightarrow> None | Some st1 \<Rightarrow> serial_run st1 fs)"
  by (induction es arbitrary: st) (simp_all split: option.splits)

lemma process_from_idle:
  assumes "idle_inv enq s"
  shows "queue_inv enq (processIncomingPayments s)"
proof (cases "incomingPaymentQueue s")
  case Nil
  with assms show ?thesis
    by (simp add: idle_inv_def queue_inv_def processIncomingPayments_def stage_def)
next
  case (Cons p rest)
  with assms show ?thesis
    by (simp add: idle_inv_def queue_inv_def processIncomingPayments_def stage_def
        begun_append ended_append serial_run_append)
qed

lemma idle_is_queue_inv:
  "idle_inv enq s \<Longrightarrow> incomingPaymentQueue s = [] \<Longrightarrow> queue_inv enq s"
  by (simp add: idle_inv_def queue_inv_def stage_def)

lemma queue_inv_idle:
  "queue_inv enq s \<Longrightarrow> incomingPaymentQueue s = [] \<Longrightarrow> idle_inv enq s"
  by (simp add: idle_inv_def queue_inv_def stage_def)

lemma schedule_inv:
  assumes "queue_inv enq s"
  shows "queue_inv (enq @ [p]) (scheduleIncomingPayment p s)"
proof (cases "incomingPaymentQueue s")
  case Nil
  let ?s1 = "s\<lparr>incomingPaymentQueue := [p]\<rparr>"
  have "idle_inv (enq @ [p]) ?s1"
    using assms Nil by (simp add: idle_inv_def queue_inv_def stage_def)
  then have "queue_inv (enq @ [p]) (processIncomingPayments ?s1)"
    by (rule process_from_idle)
  with Nil show ?thesis by (simp add: scheduleIncomingPayment_def)
next
  case (Cons q rest)
  with assms show ?thesis
    by (auto simp: scheduleIncomingPayment_def queue_inv_def stage_def)
qed

lemma after_try_inv:
  assumes "suspended s = []"
    and "incomingPaymentQueue s = p # rest"
    and "ended (trace s) @ p # rest = enq"
    and "begun (trace s) = ended (trace s) @ [p]"
    and "serial_run Idle (trace s) = Some (Returned p cb ok)"
    and "\<not> (cb = OnLiquidityFee \<and> ok)"
  shows "queue_inv enq (after_try p s)"
proof -
  let ?s1 = "s\<lparr>incomingPaymentQueue := rest, trace := trace s @ [End p]\<rparr>"
  have idle: "idle_inv enq ?s1"
    using assms by (simp add: idle_inv_def begun_append ended_append serial_run_append)
  show ?thesis
  proof (cases rest)
    case Nil
    with idle have "queue_inv enq ?s1" by (simp add: idle_is_queue_inv)
    with Nil assms(2) show ?thesis by (simp add: after_try_def)
  next
    case (Cons q more)
    from idle have "queue_inv enq (processIncomingPayments ?s1)"
      by (rule process_from_idle)
    with Cons assms(2) show ?thesis by (simp add: after_try_def)
  qed
qed

lemma resume_inv:
  assumes "queue_inv enq s"
  shows "queue_inv enq (resume n ok s)"
proof (cases "n < length (suspended s)")
  case False
  with assms show ?thesis by (simp add: resume_def)
next
  case True
  from assms have tk: "map fst (suspended s) = take 1 (incomingPaymentQueue s)"
    by (simp add: queue_inv_def)
  from True tk obtain p rest where q: "incomingPaymentQueue s = p # rest"
    by (cases "incomingPaymentQueue s") auto
  with tk obtain cb where su: "suspended s = [(p, cb)]"
    by (cases "suspended s") auto
  with True have n: "n = 0" by simp
  show ?thesis
  proof (cases "cb = OnLiquidityFee \<and> ok")
    case True
    with assms su q n show ?thesis
      by (simp add: resume_def queue_inv_def stage_def begun_append ended_append
          serial_run_append)
  next
    case False
    let ?s1 = "s\<lparr>suspended := [], trace := trace s @ [Settled p ok]\<rparr>"
    have "queue_inv enq (after_try p ?s1)"
      using assms su q False
      by (intro after_try_inv[where rest = rest and cb = cb and ok = ok])
         (simp_all add: queue_inv_def stage_def begun_append ended_append serial_run_append)
    with False su n show ?thesis by (auto simp: resume_def)
  qed
qed

lemma sync_inv:
  "queue_inv enq s \<Longrightarrow> queue_inv (enq @ rev ps) (syncPaymentsSince ps s)"
proof -
  have "queue_inv enq s \<Longrightarrow>
        queue_inv (enq @ xs) (foldl (\<lambda>s1 p. scheduleIncomingPayment p s1) s xs)" for xs
  proof (induction xs arbitrary: enq s)
    case Nil
    then show ?case by simp
  next
    case (Cons x xs)
    from Cons.IH[OF schedule_inv[OF Cons.prems, of x]] show ?case by simp
  qed
  then show "queue_inv enq s \<Longrightarrow> queue_inv (enq @ rev ps) (syncPaymentsSince ps s)"
    by (simp add: syncPaymentsSince_def)
qed

lemma step_inv:
  "queue_inv enq s \<Longrightarrow> queue_inv (enq @ enqueued_by t) (step t s)"
  by (cases t) (simp_all add: schedule_inv sync_inv resume_inv)

lemma run_inv:
  "queue_inv enq s \<Longrightarrow> queue_inv (enq @ enqueued turns) (run turns s)"
  unfolding run_def enqueued_def
proof (induction turns arbitrary: enq s)
  case Nil
  then show ?case by simp
next
  case (Cons t turns)
  from Cons.IH[OF step_inv[OF Cons.prems, of t]] show ?case by simp
qed

lemma init_inv: "queue_inv [] init_phoenixd"
  by (simp add: queue_inv_def init_phoenixd_def stage_def)

lemma run_append: "run (as @ bs) s = run bs (run as s)"
  by (simp add: run_def)

lemma run_Cons: "run (t # ts) s = run ts (step t s)"
  by (simp add: run_def)

lemma drain_one:
  assumes "suspended s = []" and "incomingPaymentQueue s = p # rest"
  shows "run (if fees p \<noteq> 0 then [Resumed 0 True, Resumed 0 True] else [Resumed 0 True])
           (processIncomingPayments s) =
         (let s1 = s\<lparr>incomingPaymentQueue := rest, trace := trace s @ full_block p\<rparr>
          in if rest = [] then s1 else processIncomingPayments s1)"
  using assms
  by (cases rest) (simp_all add: run_def processIncomingPayments_def resume_def after_try_def
      full_block_def Let_def)

lemma drain_all:
  "suspended s = [] \<Longrightarrow> incomingPaymentQueue s = q \<Longrightarrow> q \<noteq> [] \<Longrightarrow>
   run (drain_turns q) (processIncomingPayments s) =
     s\<lparr>incomingPaymentQueue := [], trace := trace s @ concat (map full_block q)\<rparr>"
proof (induction q arbitrary: s)
  case Nil
  then show ?case by simp
next
  case (Cons p rest)
  let ?s1 = "s\<lparr>incomingPaymentQueue := rest, trace := trace s @ full_block p\<rparr>"
  have split: "drain_turns (p # rest) =
      (if fees p \<noteq> 0 then [Resumed 0 True, Resumed 0 True] else [Resumed 0 True])
      @ drain_turns rest"
    by (simp add: drain_turns_def)
  have one: "run (if fees p \<noteq> 0 then [Resumed 0 True, Resumed 0 True] else [Resumed 0 True])
           (processIncomingPayments s) = (if rest = [] then ?s1 else processIncomingPayments ?s1)"
    using drain_one[OF Cons.prems(1,2)] by (simp add: Let_def)
  show ?case
  proof (cases "rest = []")
    case True
    then show ?thesis
      unfolding split run_append one by (simp add: drain_turns_def run_def)
  next
    case False
    have "run (drain_turns rest) (processIncomingPayments ?s1) =
        ?s1\<lparr>incomingPaymentQueue := [], trace := trace ?s1 @ concat (map full_block rest)\<rparr>"
      by (rule Cons.IH) (use Cons.prems False in simp_all)
    with False show ?thesis
      unfolding split run_append one by simp
  qed
qed

lemma resume_current:
  assumes "suspended s = [(p, cb)]" and "incomingPaymentQueue s = p # rest"
  shows "run (if cb = OnLiquidityFee then [Resumed 0 True, Resumed 0 True]
              else [Resumed 0 True]) s =
         (let s1 = s\<lparr>suspended := [], incomingPaymentQueue := rest,
                       trace := trace s @
                         (if cb = OnLiquidityFee
                          then [Settled p True, CallIncomingPayment p (to_event p),
                                Settled p True, End p]
                          else [Settled p True, End p])\<rparr>
          in if rest = [] then s1 else processIncomingPayments s1)"
  using assms
  by (cases rest; cases cb) (simp_all add: run_def resume_def after_try_def Let_def)

lemma enqueued_append: "enqueued (as @ bs) = enqueued as @ enqueued bs"
  by (simp add: enqueued_def)

lemma enqueued_drain: "enqueued (drain_turns ps) = []"
  by (induction ps) (simp_all add: enqueued_def drain_turns_def)

lemma enqueued_finish: "enqueued (finish_turns s) = []"
proof (cases "suspended s")
  case Nil
  then show ?thesis by (simp add: finish_turns_def enqueued_def)
next
  case (Cons x xs)
  obtain p cb where "x = (p, cb)" by (cases x)
  with Cons show ?thesis
    by (simp add: finish_turns_def enqueued_append enqueued_drain) (simp add: enqueued_def)
qed

text \<open>When every callback still to come is fulfilled, the queue empties.\<close>

lemma finish_empties:
  assumes "queue_inv enq s"
  shows "incomingPaymentQueue (run (finish_turns s) s) = []
       \<and> suspended (run (finish_turns s) s) = []"
proof (cases "incomingPaymentQueue s")
  case Nil
  with assms have "suspended s = []" by (simp add: queue_inv_def)
  with Nil show ?thesis by (simp add: finish_turns_def run_def)
next
  case (Cons p rest)
  with assms obtain cb where su: "suspended s = [(p, cb)]"
    by (cases "suspended s") (auto simp: queue_inv_def)
  let ?first = "if cb = OnLiquidityFee then [Resumed 0 True, Resumed 0 True]
                else [Resumed 0 True]"
  let ?s1 = "s\<lparr>suspended := [], incomingPaymentQueue := rest,
                trace := trace s @
                  (if cb = OnLiquidityFee
                   then [Settled p True, CallIncomingPayment p (to_event p),
                         Settled p True, End p]
                   else [Settled p True, End p])\<rparr>"
  have ft: "finish_turns s = ?first @ drain_turns rest"
    using su Cons by (simp add: finish_turns_def)
  have one: "run ?first s = (if rest = [] then ?s1 else processIncomingPayments ?s1)"
    using resume_current[OF su Cons] by (simp add: Let_def)
  show ?thesis
  proof (cases "rest = []")
    case True
    then show ?thesis unfolding ft run_append one by (simp add: drain_turns_def run_def)
  next
    case False
    have "run (drain_turns rest) (processIncomingPayments ?s1) =
        ?s1\<lparr>incomingPaymentQueue := [],
             trace := trace ?s1 @ concat (map full_block rest)\<rparr>"
      by (rule drain_all) (use False in simp_all)
    with False show ?thesis unfolding ft run_append one by simp
  qed
qed

text \<open>
  Claim C5.  After any sequence of turns from the initial state: at most one invocation of
  \<open>processIncomingPayments\<close> is suspended, and it works on the head of the queue; the
  trace is serial and ends in the stage of the state, so every callback is called for the
  payment in progress, the promise of every callback has settled before the next callback
  is called and before the payment ends, and no payment begins before the one in progress
  has ended; the payments that have ended, followed by the queue, are the payments
  enqueued, in the order of enqueuing, so processing is front to back.  Scheduling a
  payment when the queue is empty begins its processing; scheduling one when the queue is
  not empty only appends it.  Processing goes on: once the callbacks still to come are
  fulfilled, the queue is empty, every enqueued payment has ended, in the order of
  enqueuing, and the trace is serial and complete.
\<close>

theorem queue_processed_in_order:
  "length (suspended (run turns init_phoenixd)) \<le> 1
   \<and> serial (trace (run turns init_phoenixd))
   \<and> ended (trace (run turns init_phoenixd)) @ incomingPaymentQueue (run turns init_phoenixd)
       = enqueued turns
   \<and> begun (trace (run turns init_phoenixd))
       = ended (trace (run turns init_phoenixd)) @ map fst (suspended (run turns init_phoenixd))
   \<and> map fst (suspended (run turns init_phoenixd))
       = take 1 (incomingPaymentQueue (run turns init_phoenixd))
   \<and> (if incomingPaymentQueue (run turns init_phoenixd) = []
       then begun (trace (scheduleIncomingPayment p (run turns init_phoenixd)))
              = begun (trace (run turns init_phoenixd)) @ [p]
       else scheduleIncomingPayment p (run turns init_phoenixd)
              = (run turns init_phoenixd)
                  \<lparr>incomingPaymentQueue :=
                     incomingPaymentQueue (run turns init_phoenixd) @ [p]\<rparr>)
   \<and> serial_run Idle (trace (run turns init_phoenixd)) = Some (stage (run turns init_phoenixd))
   \<and> incomingPaymentQueue
         (run (finish_turns (run turns init_phoenixd)) (run turns init_phoenixd)) = []
   \<and> ended (trace (run (finish_turns (run turns init_phoenixd)) (run turns init_phoenixd)))
       = enqueued turns
   \<and> serial_run Idle
         (trace (run (finish_turns (run turns init_phoenixd)) (run turns init_phoenixd)))
       = Some Idle"
proof -
  let ?s = "run turns init_phoenixd"
  let ?f = "run (finish_turns ?s) ?s"
  have inv: "queue_inv (enqueued turns) ?s"
    using run_inv[OF init_inv, of turns] by simp
  have finv: "queue_inv (enqueued turns) ?f"
    using run_inv[OF inv, of "finish_turns ?s"] by (simp add: enqueued_finish)
  have fe: "incomingPaymentQueue ?f = []" and fs: "suspended ?f = []"
    using finish_empties[OF inv] by simp_all
  have fend: "ended (trace ?f) = enqueued turns"
    using finv fe by (simp add: queue_inv_def)
  have fser: "serial_run Idle (trace ?f) = Some Idle"
    using finv fs by (simp add: queue_inv_def stage_def)
  have st: "serial_run Idle (trace ?s) = Some (stage ?s)"
    using inv by (simp add: queue_inv_def)
  from inv have tk: "map fst (suspended ?s) = take 1 (incomingPaymentQueue ?s)"
    by (simp add: queue_inv_def)
  then have "length (map fst (suspended ?s)) \<le> 1" by simp
  then have one: "length (suspended ?s) \<le> 1" by simp
  have ser: "serial (trace ?s)" using inv by (simp add: queue_inv_def serial_def)
  have last: "begun (trace (scheduleIncomingPayment p ?s)) = begun (trace ?s) @ [p]"
    if "incomingPaymentQueue ?s = []"
    using that
    by (simp add: scheduleIncomingPayment_def processIncomingPayments_def begun_append Let_def)
  have app: "scheduleIncomingPayment p ?s =
      ?s\<lparr>incomingPaymentQueue := incomingPaymentQueue ?s @ [p]\<rparr>"
    if "incomingPaymentQueue ?s \<noteq> []"
    using that by (cases "incomingPaymentQueue ?s") (simp_all add: scheduleIncomingPayment_def)
  have i1: "ended (trace ?s) @ incomingPaymentQueue ?s = enqueued turns"
    and i2: "begun (trace ?s) = ended (trace ?s) @ map fst (suspended ?s)"
    using inv by (simp_all add: queue_inv_def)
  have sched: "if incomingPaymentQueue ?s = []
       then begun (trace (scheduleIncomingPayment p ?s)) = begun (trace ?s) @ [p]
       else scheduleIncomingPayment p ?s =
              ?s\<lparr>incomingPaymentQueue := incomingPaymentQueue ?s @ [p]\<rparr>"
    using last app by simp
  show ?thesis
    by (intro conjI one ser i1 i2 tk sched st fe fend fser)
qed


theorem queue_processed_in_order_witness:
  "enqueued ex_turns = [n1, n2, n3]
   \<and> incomingPaymentQueue (run ex_turns init_phoenixd) = []
   \<and> begun (trace (run ex_turns init_phoenixd)) = [n1, n2, n3]
   \<and> ended (trace (run ex_turns init_phoenixd)) = [n1, n2, n3]
   \<and> serial (trace (run ex_turns init_phoenixd))
   \<and> trace (run ex_turns init_phoenixd) =
       [Begin n1, CallLiquidityFee n1 7, Settled n1 True,
        CallIncomingPayment n1 (to_event n1), Settled n1 True, End n1,
        Begin n2, CallIncomingPayment n2 (to_event n2), Settled n2 False, End n2,
        Begin n3, CallIncomingPayment n3 (to_event n3), Settled n3 True, End n3]
   \<and> begun (trace (scheduleIncomingPayment n1 (run ex_turns init_phoenixd)))
       = [n1, n2, n3, n1]
   \<and> stage (run [Notified n1, Notified n2, Notified n3] init_phoenixd)
       = Calling n1 OnLiquidityFee
   \<and> incomingPaymentQueue (run [Notified n1, Notified n2, Notified n3] init_phoenixd)
       = [n1, n2, n3]
   \<and> finish_turns (run [Notified n1, Notified n2, Notified n3] init_phoenixd)
       = [Resumed 0 True, Resumed 0 True, Resumed 0 True, Resumed 0 True]
   \<and> ended (trace (run (finish_turns
         (run [Notified n1, Notified n2, Notified n3] init_phoenixd))
         (run [Notified n1, Notified n2, Notified n3] init_phoenixd))) = [n1, n2, n3]
   \<and> \<not> serial [Begin n2, CallIncomingPayment n2 (to_event n2), End n2]
   \<and> \<not> serial [Begin n2, CallIncomingPayment n2 (to_event n2), Begin n3]
   \<and> \<not> serial [Begin n1, CallLiquidityFee n1 7, CallIncomingPayment n1 (to_event n1)]
   \<and> \<not> serial [Begin n2, CallIncomingPayment n2 (to_event n2), Settled n2 True, Begin n3]"
proof -
  have mid: "run [Notified n1, Notified n2, Notified n3] init_phoenixd =
      \<lparr>incomingPaymentQueue = [n1, n2, n3], suspended = [(n1, OnLiquidityFee)],
       trace = [Begin n1, CallLiquidityFee n1 7]\<rparr>"
    by (simp add: adapter_defs n_distinct)
  have e3: "enqueued [Notified n1, Notified n2, Notified n3] = [n1, n2, n3]"
    by (simp add: enqueued_def)
  have a: "enqueued ex_turns = [n1, n2, n3]"
    "incomingPaymentQueue (run ex_turns init_phoenixd) = []"
    "begun (trace (run ex_turns init_phoenixd)) = [n1, n2, n3]"
    "ended (trace (run ex_turns init_phoenixd)) = [n1, n2, n3]"
    "serial (trace (run ex_turns init_phoenixd))"
    "begun (trace (scheduleIncomingPayment n1 (run ex_turns init_phoenixd)))
       = [n1, n2, n3, n1]"
    using queue_processed_in_order[of ex_turns n1] by (simp_all add: ex_turns_trace)
  have b: "ended (trace (run (finish_turns
         (run [Notified n1, Notified n2, Notified n3] init_phoenixd))
         (run [Notified n1, Notified n2, Notified n3] init_phoenixd))) = [n1, n2, n3]"
    using queue_processed_in_order[of "[Notified n1, Notified n2, Notified n3]" n1]
    by (simp add: e3)
  have c: "finish_turns (run [Notified n1, Notified n2, Notified n3] init_phoenixd)
       = [Resumed 0 True, Resumed 0 True, Resumed 0 True, Resumed 0 True]"
    by (simp add: mid finish_turns_def drain_turns_def n_distinct)
  have d: "\<not> serial [Begin n2, CallIncomingPayment n2 (to_event n2), End n2]"
    "\<not> serial [Begin n2, CallIncomingPayment n2 (to_event n2), Begin n3]"
    "\<not> serial [Begin n1, CallLiquidityFee n1 7, CallIncomingPayment n1 (to_event n1)]"
    "\<not> serial [Begin n2, CallIncomingPayment n2 (to_event n2), Settled n2 True, Begin n3]"
    by (simp_all add: serial_def n_distinct)
  show ?thesis
    using a b c d by (simp add: ex_turns_trace mid stage_def)
qed

subsection \<open>Backfill\<close>

lemma schedule_all_busy:
  "incomingPaymentQueue s \<noteq> [] \<Longrightarrow>
   foldl (\<lambda>s1 p. scheduleIncomingPayment p s1) s xs =
     s\<lparr>incomingPaymentQueue := incomingPaymentQueue s @ xs\<rparr>"
proof (induction xs arbitrary: s)
  case Nil
  then show ?case by simp
next
  case (Cons x xs)
  have "scheduleIncomingPayment x s = s\<lparr>incomingPaymentQueue := incomingPaymentQueue s @ [x]\<rparr>"
    using Cons.prems by (cases "incomingPaymentQueue s") (simp_all add: scheduleIncomingPayment_def)
  then show ?case using Cons.IH[of "scheduleIncomingPayment x s"] by simp
qed

lemma sync_from_idle:
  assumes "incomingPaymentQueue s = []" and "ps \<noteq> []"
  shows "syncPaymentsSince ps s = processIncomingPayments (s\<lparr>incomingPaymentQueue := rev ps\<rparr>)"
proof -
  obtain x xs where r: "rev ps = x # xs" using assms(2) by (cases "rev ps") auto
  let ?s1 = "processIncomingPayments (s\<lparr>incomingPaymentQueue := [x]\<rparr>)"
  have first: "scheduleIncomingPayment x s = ?s1"
    using assms(1) by (simp add: scheduleIncomingPayment_def)
  have q1: "incomingPaymentQueue ?s1 = [x]"
    by (simp add: processIncomingPayments_def)
  have "foldl (\<lambda>s1 p. scheduleIncomingPayment p s1) ?s1 xs =
      ?s1\<lparr>incomingPaymentQueue := incomingPaymentQueue ?s1 @ xs\<rparr>"
    by (rule schedule_all_busy) (simp add: q1)
  also have "\<dots> = processIncomingPayments (s\<lparr>incomingPaymentQueue := x # xs\<rparr>)"
    by (simp add: processIncomingPayments_def)
  finally show ?thesis by (simp add: syncPaymentsSince_def r first)
qed

lemma received_blocks: "received (concat (map full_block ps)) = map to_event ps"
  by (induction ps) (simp_all add: full_block_def received_append)

lemma begun_blocks: "begun (concat (map full_block ps)) = ps"
  by (induction ps) (simp_all add: full_block_def begun_append)

lemma sync_then_drain:
  "run (Synced ps # drain_turns (rev ps)) init_phoenixd =
     \<lparr>incomingPaymentQueue = [], suspended = [], trace = concat (map full_block (rev ps))\<rparr>"
proof (cases "ps = []")
  case True
  then show ?thesis
    by (simp add: run_def drain_turns_def syncPaymentsSince_def init_phoenixd_def)
next
  case False
  let ?s0 = "init_phoenixd\<lparr>incomingPaymentQueue := rev ps\<rparr>"
  have "step (Synced ps) init_phoenixd = processIncomingPayments ?s0"
    using sync_from_idle[of init_phoenixd ps] False by (simp add: init_phoenixd_def)
  moreover have "run (drain_turns (rev ps)) (processIncomingPayments ?s0) =
      ?s0\<lparr>incomingPaymentQueue := [], trace := trace ?s0 @ concat (map full_block (rev ps))\<rparr>"
    by (rule drain_all) (use False in \<open>simp_all add: init_phoenixd_def\<close>)
  ultimately show ?thesis by (simp add: run_Cons init_phoenixd_def)
qed

lemma chronological:
  assumes "sorted_wrt (\<lambda>a b. completedAt b \<le> completedAt a) ps"
  shows "sorted (map ev_settledAt (map to_event (rev ps)))"
proof -
  have "sorted_wrt (\<lambda>a b. completedAt a \<le> completedAt b) (rev ps)"
    using assms by (simp add: sorted_wrt_rev)
  then have "sorted_wrt (\<lambda>a b. ev_settledAt (to_event a) \<le> ev_settledAt (to_event b)) (rev ps)"
    by (rule sorted_wrt_mono_rel[rotated]) (simp add: to_event_def zdiv_mono1)
  then show ?thesis by (simp only: sorted_wrt_map)
qed

text \<open>
  Claim C6, as the code has it.  From the initial state, \<open>syncPaymentsSince\<close> enqueues
  the node's list in reversed order.  When every callback is fulfilled the queue drains,
  processing begins in the reversed order of the list and \<open>onIncomingPayment\<close> is called
  with the payments' events in that order; these are in ascending order of settled-at
  when the node's list is newest-first.  Whatever the outcomes of the callbacks, the
  payments begun so far are an initial part of the reversed list.
\<close>

theorem syncPaymentsSince_reversed:
  "incomingPaymentQueue (run (Synced ps # drain_turns (rev ps)) init_phoenixd) = []
   \<and> begun (trace (run (Synced ps # drain_turns (rev ps)) init_phoenixd)) = rev ps
   \<and> received (trace (run (Synced ps # drain_turns (rev ps)) init_phoenixd))
       = map to_event (rev ps)
   \<and> (sorted_wrt (\<lambda>a b. completedAt b \<le> completedAt a) ps \<longrightarrow>
        sorted (map ev_settledAt
          (received (trace (run (Synced ps # drain_turns (rev ps)) init_phoenixd)))))
   \<and> begun (trace (run (Synced ps # map (\<lambda>(n, ok). Resumed n ok) rs) init_phoenixd))
       = take (length (begun (trace
             (run (Synced ps # map (\<lambda>(n, ok). Resumed n ok) rs) init_phoenixd)))) (rev ps)"
proof -
  let ?s = "run (Synced ps # map (\<lambda>(n, ok). Resumed n ok) rs) init_phoenixd"
  have e: "enqueued (Synced ps # map (\<lambda>(n, ok). Resumed n ok) rs) = rev ps"
    by (induction rs) (auto simp: enqueued_def)
  have inv: "queue_inv (rev ps) ?s"
    using run_inv[OF init_inv, of "Synced ps # map (\<lambda>(n, ok). Resumed n ok) rs"] e by simp
  have b1: "begun (trace ?s) = ended (trace ?s) @ take 1 (incomingPaymentQueue ?s)"
    using inv by (simp add: queue_inv_def)
  have b2: "ended (trace ?s) @ incomingPaymentQueue ?s = rev ps"
    using inv by (simp add: queue_inv_def)
  have pre: "begun (trace ?s) = take (length (begun (trace ?s))) (rev ps)"
  proof (cases "incomingPaymentQueue ?s")
    case Nil
    then show ?thesis using b1 b2 by simp
  next
    case (Cons a list)
    with b2 have r: "rev ps = ended (trace ?s) @ a # list" by simp
    from Cons b1 have b: "begun (trace ?s) = ended (trace ?s) @ [a]" by simp
    have "take (length (ended (trace ?s) @ [a])) (ended (trace ?s) @ a # list) =
        ended (trace ?s) @ [a]" by simp
    then show ?thesis using b r by simp
  qed
  show ?thesis
    using pre chronological[of ps]
    by (simp add: sync_then_drain received_blocks begun_blocks)
qed

theorem syncPaymentsSince_reversed_witness:
  "sorted_wrt (\<lambda>a b. completedAt b \<le> completedAt a) [n3, n2, n1]
   \<and> received (trace (run (Synced [n3, n2, n1] # drain_turns (rev [n3, n2, n1])) init_phoenixd))
       = [to_event n1, to_event n2, to_event n3]
   \<and> map ev_settledAt
        (received (trace (run (Synced [n3, n2, n1] # drain_turns (rev [n3, n2, n1]))
           init_phoenixd))) = [10, 20, 30]"
  using syncPaymentsSince_reversed[of "[n3, n2, n1]" "[]"]
  by (simp add: to_event_def n1_def n2_def n3_def)

text \<open>The claim as stated fails: the list \<open>[P3, P1, P2]\<close> is not newest-first, and the
  callback is called for \<open>P2\<close>, \<open>P1\<close>, \<open>P3\<close>, with settled-at 20, 10, 30.\<close>

theorem syncPaymentsSince_order_counterexample:
  "map completedAt [n3, n1, n2] = [30000, 10000, 20000]
   \<and> received (trace (run (Synced [n3, n1, n2] # drain_turns (rev [n3, n1, n2])) init_phoenixd))
       = [to_event n2, to_event n1, to_event n3]
   \<and> map ev_settledAt
        (received (trace (run (Synced [n3, n1, n2] # drain_turns (rev [n3, n1, n2]))
           init_phoenixd))) = [20, 10, 30]
   \<and> received (trace (run (Synced [n3, n1, n2] # drain_turns (rev [n3, n1, n2])) init_phoenixd))
       \<noteq> [to_event n1, to_event n2, to_event n3]"
  by (simp add: drain_turns_def adapter_defs to_event_def n1_def n2_def n3_def)

end
